theory Spec2Isabelle
  imports Complex_Main "HOL-Library.Multiset"
begin

section \<open>Numbers and arrays of the host language\<close>

text \<open>
  The widget is written in TypeScript. Its numbers are modelled as follows: sizes,
  positions, offsets, velocities and timestamps are \<^typ>\<open>real\<close> (finite values, exact
  arithmetic); item indices, counts and type indices are \<^typ>\<open>int\<close>; slot positions
  are \<^typ>\<open>nat\<close>. Where the source would go on with \<open>undefined\<close> or \<open>NaN\<close> (a read
  outside an array that feeds arithmetic, \<open>0 / 0\<close>), the model stops with the failure
  \<open>NotFinite\<close> instead of inventing a value; an infinity is followed where a minimum
  or a clamp makes a finite number of it (the ratio of a pull, the first index of a
  fixed-size list).
\<close>

datatype failure = OutOfFuel | NotFinite | Diverges

definition clamp :: "'a::linorder \<Rightarrow> 'a \<Rightarrow> 'a \<Rightarrow> 'a" where
  "clamp v lo hi = max lo (min hi v)"

definition Math_round :: "real \<Rightarrow> real" where
  "Math_round x = of_int \<lfloor>x + 1 / 2\<rfloor>"

text \<open>\<open>xs[i]\<close>: a read outside the array is \<open>undefined\<close>, here \<open>None\<close>.\<close>

definition array_get :: "'a list \<Rightarrow> int \<Rightarrow> 'a option" where
  "array_get xs i = (if 0 \<le> i \<and> i < int (length xs) then Some (xs ! nat i) else None)"

text \<open>
  \<open>xs[i] = v\<close> on an array of optional entries: a write past the end extends the array
  and leaves holes, which read as \<open>undefined\<close>.
\<close>

definition array_set :: "'a option list \<Rightarrow> nat \<Rightarrow> 'a option \<Rightarrow> 'a option list" where
  "array_set xs i v =
     (if i < length xs then xs[i := v] else xs @ replicate (i - length xs) None @ [v])"

text \<open>
  \<open>xs.splice(start, count)\<close>: the removed elements and what is left of the array. A
  negative \<open>start\<close> counts from the end.
\<close>

definition splice :: "'a list \<Rightarrow> int \<Rightarrow> nat \<Rightarrow> 'a list \<times> 'a list" where
  "splice xs start cnt =
     (let len = int (length xs);
          s = nat (if start < 0 then max (len + start) 0 else min start len)
      in (take cnt (drop s xs), take s xs @ drop (s + cnt) xs))"

text \<open>
  \<open>x >> 1\<close> first converts \<open>x\<close> to a signed 32-bit integer (wrapping), then shifts
  arithmetically.
\<close>

definition ToInt32 :: "int \<Rightarrow> int" where
  "ToInt32 x = (x + 2 ^ 31) mod 2 ^ 32 - 2 ^ 31"

definition sar1 :: "int \<Rightarrow> int" where
  "sar1 x = ToInt32 x div 2"

section \<open>The widget's data\<close>

datatype ScrollDirection = VERTICAL | HORIZONTAL

datatype RefreshState = R_IDLE | R_PULLING | R_READY | R_REFRESHING | R_COMPLETE

datatype LoadMoreState = L_IDLE | L_PULLING | L_READY | L_LOADING | L_COMPLETE | L_NO_MORE

text \<open>The two delayed callbacks registered with \<open>scheduleOnce\<close>.\<close>

datatype timer = RefreshAutoIdle | LoadMoreAutoIdle

text \<open>
  A display node (\<open>cc.Node\<close>) is an identifier; what the widget reads and writes of it
  is kept in a store. \<open>nodeDataIndex\<close> is the \<open>dataIndex\<close> of the node's
  \<open>VScrollViewItem\<close> component.
\<close>

record node_attrs =
  nodeActive :: bool
  nodeDataIndex :: int
  nodePosition :: "real \<times> real"
  nodeSize :: "real \<times> real"
  nodeParent :: bool
  nodeDestroyed :: bool

text \<open>
  The properties and callbacks that none of the modelled methods writes. The callbacks
  are the host's: \<open>renderItemFn\<close> is given by its effect on the rendered node's content
  size (width, height), the two state-change callbacks by whether they are set (their
  calls are logged in the state), \<open>anchor\<close> is \<open>getAnchorPoint\<close>, and \<open>prefabSize\<close> the
  content size of a node instantiated from the prefab of a type. \<open>slots\<close> and
  \<open>viewportSize\<close> are the private \<open>_slots\<close> and \<open>_viewportSize\<close>, fixed at
  initialisation.
\<close>

record config =
  useVirtualList :: bool
  direction :: ScrollDirection
  useDynamicSize :: bool
  itemMainSize :: real
  itemCrossSize :: real
  gridCount :: int
  gridSpacing :: real
  spacing :: real
  totalCount :: int
  buffer :: int
  enablePullRefresh :: bool
  pullRefreshThreshold :: real
  pullRefreshMaxOffset :: real
  enableLoadMore :: bool
  loadMoreThreshold :: real
  loadMoreMaxOffset :: real
  pullDampingRate :: real
  pixelAlign :: bool
  velocityWindow :: real
  maxVelocity :: real
  viewportSize :: real
  slots :: nat
  renderItemFn :: "(nat \<Rightarrow> int \<Rightarrow> real \<times> real \<Rightarrow> real \<times> real) option"
  getItemHeightFn :: "(int \<Rightarrow> real) option"
  getItemTypeIndexFn :: "(int \<Rightarrow> int) option"
  onRefreshStateChangeFn :: bool
  onLoadMoreStateChangeFn :: bool
  anchor :: "nat \<Rightarrow> real \<times> real"
  prefabSize :: "int \<Rightarrow> real \<times> real"

text \<open>
  The private fields. \<open>contentPos\<close> is the main-axis coordinate of the content node,
  \<open>contentMainSize\<close> its main-axis size. \<open>nodePool\<close> is \<open>None\<close> for \<open>null\<close>, otherwise
  the \<open>pools\<close> map of the \<open>InternalNodePool\<close>. \<open>nodes\<close> is the node store and
  \<open>nextNode\<close> the next identifier \<open>cc.instantiate\<close> hands out. \<open>renderLog\<close>,
  \<open>refreshLog\<close> and \<open>loadMoreLog\<close> record the calls of \<open>renderItemFn\<close>,
  \<open>onRefreshStateChangeFn\<close> and \<open>onLoadMoreStateChangeFn\<close> in order, and
  \<open>scheduled\<close> the delayed callbacks not yet run.
\<close>

record state =
  contentPos :: real
  contentMainSize :: real
  contentSize :: real
  boundsMin :: real
  boundsMax :: real
  velocity :: real
  isTouching :: bool
  velSamples :: "(real \<times> real) list"
  slotNodes :: "nat option list"
  slotFirstIndex :: int
  itemSizes :: "real list"
  prefixPositions :: "real list"
  nodePool :: "(int \<Rightarrow> nat list option) option"
  slotPrefabIndices :: "int option list"
  needAnimateIndices :: "int set"
  scrollTween :: bool
  refreshState :: RefreshState
  loadMoreState :: LoadMoreState
  pullOffset :: real
  loadOffset :: real
  isRefreshing :: bool
  isLoadingMore :: bool
  hasMore :: bool
  nodes :: "nat \<Rightarrow> node_attrs"
  nextNode :: nat
  renderLog :: "(nat \<times> int) list"
  refreshLog :: "(RefreshState \<times> real) list"
  loadMoreLog :: "(LoadMoreState \<times> real) list"
  scheduled :: "timer list"

definition isVertical :: "config \<Rightarrow> bool" where
  "isVertical cfg = (direction cfg = VERTICAL)"

definition setContentMainPos :: "config \<Rightarrow> real \<Rightarrow> state \<Rightarrow> state" where
  "setContentMainPos cfg pos st =
     st\<lparr>contentPos := (if pixelAlign cfg then Math_round pos else pos)\<rparr>"

section \<open>The size table\<close>

text \<open>
  The loop shared by \<open>_buildPrefixSum\<close> and \<open>_rebuildPrefixSumFrom\<close>: the start
  positions of the given sizes from the accumulator on, and the accumulator after the
  last item.
\<close>

fun prefixLoop :: "real \<Rightarrow> real \<Rightarrow> real list \<Rightarrow> real list \<times> real" where
  "prefixLoop sp acc [] = ([], acc)"
| "prefixLoop sp acc (x # xs) =
     (let r = prefixLoop sp (acc + (x + sp)) xs in (acc # fst r, snd r))"

text \<open>
  The common end of both methods: content size (never negative), the content node's
  size and the scroll bounds, from the accumulator.
\<close>

definition setContentAndBounds :: "config \<Rightarrow> real \<Rightarrow> state \<Rightarrow> state" where
  "setContentAndBounds cfg acc st =
     (let c0 = acc - spacing cfg;
          c = (if c0 < 0 then 0 else c0);
          st1 = st\<lparr>contentSize := c, contentMainSize := max c (viewportSize cfg)\<rparr>
      in if isVertical cfg
         then st1\<lparr>boundsMin := 0, boundsMax := max 0 (c - viewportSize cfg)\<rparr>
         else st1\<lparr>boundsMin := - max 0 (c - viewportSize cfg), boundsMax := 0\<rparr>)"

definition buildPrefixSum :: "config \<Rightarrow> state \<Rightarrow> state" where
  "buildPrefixSum cfg st =
     (let r = prefixLoop (spacing cfg) 0 (itemSizes st)
      in setContentAndBounds cfg (snd r) (st\<lparr>prefixPositions := fst r\<rparr>))"

text \<open>
  The suffix rebuild writes \<open>_prefixPositions[i]\<close> in place for
  \<open>startIndex \<le> i < _itemSizes.length\<close>; its seed reads the entries before
  \<open>startIndex\<close>, which are \<open>undefined\<close> outside the arrays.
\<close>

definition rebuildPrefixSumFrom :: "config \<Rightarrow> int \<Rightarrow> state \<Rightarrow> failure + state" where
  "rebuildPrefixSumFrom cfg startIndex st =
     (if startIndex = 0 then Inr (buildPrefixSum cfg st)
      else
        case (array_get (prefixPositions st) (startIndex - 1),
              array_get (itemSizes st) (startIndex - 1)) of
          (Some p, Some sz) \<Rightarrow>
            (let r = prefixLoop (spacing cfg) (p + sz + spacing cfg)
                       (drop (nat startIndex) (itemSizes st))
             in Inr (setContentAndBounds cfg (snd r)
                  (st\<lparr>prefixPositions :=
                        take (nat startIndex) (prefixPositions st) @ fst r @
                        drop (length (itemSizes st)) (prefixPositions st)\<rparr>)))
        | _ \<Rightarrow> Inl NotFinite)"

text \<open>
  The binary search of \<open>_posToFirstIndex\<close>. The midpoint is \<open>(l + r) >> 1\<close>, a 32-bit
  operation, so the loop is not known to end on every array: not returning is \<open>None\<close>.
  \<open>undefined > pos\<close> is false.
\<close>

partial_function (option) bsearch :: "real list \<Rightarrow> real \<Rightarrow> int \<Rightarrow> int \<Rightarrow> int \<Rightarrow> int option" where
  "bsearch ps pos l r ans =
     (if l \<le> r
      then (if (case array_get ps (sar1 (l + r)) of Some v \<Rightarrow> v > pos | None \<Rightarrow> False)
            then bsearch ps pos l (sar1 (l + r) - 1) (sar1 (l + r))
            else bsearch ps pos (sar1 (l + r) + 1) r ans)
      else Some ans)"

definition posToFirstIndex :: "real list \<Rightarrow> real \<Rightarrow> int option" where
  "posToFirstIndex ps pos =
     (if pos \<le> 0 then Some 0
      else map_option (\<lambda>ans. max 0 (ans - 1))
             (bsearch ps pos 0 (int (length ps) - 1) (int (length ps))))"

text \<open>The scan of \<open>_calcVisibleRange\<close> for the end of the range.\<close>

function scanEnd :: "real list \<Rightarrow> real \<Rightarrow> int \<Rightarrow> int" where
  "scanEnd ps endPos e =
     (if e < int (length ps)
      then (if (case array_get ps e of Some v \<Rightarrow> v \<ge> endPos | None \<Rightarrow> False)
            then e else scanEnd ps endPos (e + 1))
      else e)"
  by pat_completeness auto
termination
  by (relation "measure (\<lambda>(ps, endPos, e). nat (int (length ps) - e))") auto

declare scanEnd.simps [simp del]

definition calcVisibleRange :: "config \<Rightarrow> real list \<Rightarrow> real \<Rightarrow> (int \<times> int) option" where
  "calcVisibleRange cfg ps scrollPos =
     (let n = int (length ps)
      in if n = 0 then Some (0, 0)
         else case posToFirstIndex ps scrollPos of
                None \<Rightarrow> None
              | Some start \<Rightarrow>
                  (let endPos = scrollPos + viewportSize cfg;
                       e = scanEnd ps endPos start
                   in Some (max 0 (start - buffer cfg), min n (e + buffer cfg))))"

section \<open>The node pool\<close>

definition setNode :: "nat \<Rightarrow> (node_attrs \<Rightarrow> node_attrs) \<Rightarrow> state \<Rightarrow> state" where
  "setNode n f st = st\<lparr>nodes := (nodes st)(n := f (nodes st n))\<rparr>"

text \<open>A node as \<open>cc.instantiate\<close> returns it from the prefab of a type.\<close>

definition freshNode :: "config \<Rightarrow> int \<Rightarrow> node_attrs" where
  "freshNode cfg ty =
     \<lparr>nodeActive = True, nodeDataIndex = - 1, nodePosition = (0, 0),
      nodeSize = prefabSize cfg ty, nodeParent = False, nodeDestroyed = False\<rparr>"

text \<open>
  \<open>InternalNodePool.get\<close> and \<open>put\<close>, on the \<open>pools\<close> map of the pool object, which the
  state holds in \<open>nodePool\<close>.
\<close>

definition pool_get :: "config \<Rightarrow> (int \<Rightarrow> nat list option) \<Rightarrow> int \<Rightarrow> state \<Rightarrow> nat option \<times> state" where
  "pool_get cfg pools typeIndex st =
     (case pools typeIndex of
        None \<Rightarrow> (None, st)
      | Some pool \<Rightarrow>
          if length pool > 0
          then (Some (last pool),
                setNode (last pool) (\<lambda>a. a\<lparr>nodeActive := True\<rparr>)
                  (st\<lparr>nodePool := Some (pools(typeIndex \<mapsto> butlast pool))\<rparr>))
          else (Some (nextNode st),
                st\<lparr>nodes := (nodes st)(nextNode st := freshNode cfg typeIndex),
                   nextNode := nextNode st + 1\<rparr>))"

definition pool_put :: "(int \<Rightarrow> nat list option) \<Rightarrow> nat option \<Rightarrow> int \<Rightarrow> state \<Rightarrow> state" where
  "pool_put pools node typeIndex st =
     (case node of
        None \<Rightarrow> st
      | Some n \<Rightarrow>
          (case pools typeIndex of
             None \<Rightarrow> setNode n (\<lambda>a. a\<lparr>nodeDestroyed := True\<rparr>) st
           | Some pool \<Rightarrow>
               (setNode n (\<lambda>a. a\<lparr>nodeActive := False, nodeParent := False\<rparr>) st)
                 \<lparr>nodePool := Some (pools(typeIndex \<mapsto> pool @ [n]))\<rparr>))"

section \<open>The windowing engine\<close>

text \<open>
  \<open>_layoutSingleSlot\<close> can call \<open>updateItemHeight\<close>, which calls \<open>_updateVisible(true)\<close>,
  which lays the slots out again. The methods of this cycle take the re-entrant call
  \<open>_updateVisible(true)\<close> as their first argument \<open>R\<close>; the cycle is closed below by
  \<open>updateVisible\<close>, whose fuel bounds the depth of the nesting.
\<close>

fun forEach :: "'a list \<Rightarrow> ('a \<Rightarrow> state \<Rightarrow> failure + state) \<Rightarrow> state \<Rightarrow> failure + state" where
  "forEach [] body st = Inr st"
| "forEach (x # xs) body st =
     (case body x st of Inl e \<Rightarrow> Inl e | Inr st' \<Rightarrow> forEach xs body st')"

text \<open>\<open>this._slotNodes[s]\<close>, where \<open>null\<close> and \<open>undefined\<close> are both \<open>None\<close>.\<close>

definition slotNode :: "state \<Rightarrow> nat \<Rightarrow> nat option" where
  "slotNode st s = Option.bind (array_get (slotNodes st) (int s)) (\<lambda>n. n)"

definition js_rem :: "int \<Rightarrow> int \<Rightarrow> int" where
  "js_rem a b = sgn a * (\<bar>a\<bar> mod \<bar>b\<bar>)"

definition align :: "config \<Rightarrow> real \<Rightarrow> real" where
  "align cfg v = (if pixelAlign cfg then Math_round v else v)"

text \<open>\<open>_updateItemClickHandler\<close>, as far as the engine reads it back: the data index.\<close>

definition updateItemClickHandler :: "config \<Rightarrow> nat \<Rightarrow> int \<Rightarrow> state \<Rightarrow> state" where
  "updateItemClickHandler cfg n idx st =
     (if \<not> useVirtualList cfg then st else setNode n (\<lambda>a. a\<lparr>nodeDataIndex := idx\<rparr>) st)"

text \<open>\<open>if (this.renderItemFn) this.renderItemFn(node, idx)\<close>.\<close>

definition render :: "config \<Rightarrow> nat \<Rightarrow> int \<Rightarrow> state \<Rightarrow> state" where
  "render cfg n idx st =
     (case renderItemFn cfg of
        None \<Rightarrow> st
      | Some f \<Rightarrow>
          (setNode n (\<lambda>a. a\<lparr>nodeSize := f n idx (nodeSize a)\<rparr>) st)
            \<lparr>renderLog := renderLog st @ [(n, idx)]\<rparr>)"

text \<open>The appear animation is the host's; the engine clears the pending flag.\<close>

definition playAppear :: "int \<Rightarrow> state \<Rightarrow> state" where
  "playAppear idx st =
     (if idx \<in> needAnimateIndices st
      then st\<lparr>needAnimateIndices := needAnimateIndices st - {idx}\<rparr> else st)"

definition getNodeMainSize :: "config \<Rightarrow> state \<Rightarrow> nat \<Rightarrow> real" where
  "getNodeMainSize cfg st n =
     (if isVertical cfg then snd (nodeSize (nodes st n)) else fst (nodeSize (nodes st n)))"

definition updateItemHeightWith ::
    "(state \<Rightarrow> failure + state) \<Rightarrow> config \<Rightarrow> int \<Rightarrow> real option \<Rightarrow> state \<Rightarrow> failure + state" where
  "updateItemHeightWith R cfg index newSize st =
     (if \<not> useDynamicSize cfg then Inr st
      else if index < 0 \<or> index \<ge> totalCount cfg then Inr st
      else
        case (case newSize of
                Some x \<Rightarrow> Some x
              | None \<Rightarrow> map_option (\<lambda>h. h index) (getItemHeightFn cfg)) of
          None \<Rightarrow> Inr st
        | Some sz \<Rightarrow>
            if array_get (itemSizes st) index = Some sz then Inr st
            else if index > int (length (itemSizes st)) then Inl NotFinite
            else
              (let st1 = st\<lparr>itemSizes :=
                            (if index < int (length (itemSizes st))
                             then (itemSizes st)[nat index := sz]
                             else itemSizes st @ [sz])\<rparr>
               in case rebuildPrefixSumFrom cfg index st1 of
                    Inl e \<Rightarrow> Inl e
                  | Inr st2 \<Rightarrow> R st2))"

text \<open>
  The dynamic-size branch of \<open>_layoutSingleSlot\<close> from \<open>newNode.active = true\<close> on, for
  the node \<open>newNode\<close> the slot has been given.
\<close>

definition layoutDynamicNode ::
    "(state \<Rightarrow> failure + state) \<Rightarrow> config \<Rightarrow> nat \<Rightarrow> int \<Rightarrow> state \<Rightarrow> failure + state" where
  "layoutDynamicNode R cfg newNode idx st =
     (let st1 = setNode newNode (\<lambda>a. a\<lparr>nodeActive := True\<rparr>) st;
          st2 = updateItemClickHandler cfg newNode idx st1;
          st3 = render cfg newNode idx st2;
          mismatch =
            (case getItemHeightFn cfg of
               Some h \<Rightarrow>
                 if array_get (itemSizes st3) idx \<noteq> Some (h idx) then Some (h idx) else None
             | None \<Rightarrow>
                 (case array_get (itemSizes st3) idx of
                    Some sz \<Rightarrow>
                      if \<bar>sz - getNodeMainSize cfg st3 newNode\<bar> > 1
                      then Some (getNodeMainSize cfg st3 newNode) else None
                  | None \<Rightarrow> None))
      in case mismatch of
           Some sz \<Rightarrow> updateItemHeightWith R cfg idx (Some sz) st3
         | None \<Rightarrow>
             (case (array_get (itemSizes st3) idx, array_get (prefixPositions st3) idx) of
                (Some sz, Some itemStart) \<Rightarrow>
                  (let a = anchor cfg newNode;
                       p = (if isVertical cfg
                            then (0, align cfg (- (itemStart + sz * (1 - snd a))))
                            else (align cfg (itemStart + sz * fst a), 0))
                   in Inr (playAppear idx (setNode newNode (\<lambda>a. a\<lparr>nodePosition := p\<rparr>) st3)))
              | _ \<Rightarrow> Inl NotFinite))"

text \<open>The fixed-size branch of \<open>_layoutSingleSlot\<close>, for a node that is not \<open>null\<close>.\<close>

definition layoutFixedNode :: "config \<Rightarrow> nat \<Rightarrow> int \<Rightarrow> state \<Rightarrow> failure + state" where
  "layoutFixedNode cfg n idx st =
     (if gridCount cfg = 0 then Inl NotFinite
      else
        let st1 = setNode n (\<lambda>a. a\<lparr>nodeActive := True\<rparr>) st;
            stride = itemMainSize cfg + spacing cfg;
            line = idx div gridCount cfg;
            gridPos = js_rem idx (gridCount cfg);
            itemStart = of_int line * stride;
            a = anchor cfg n;
            total = of_int (gridCount cfg) * itemCrossSize cfg
                      + of_int (gridCount cfg - 1) * gridSpacing cfg;
            p = (if isVertical cfg
                 then (of_int gridPos * (itemCrossSize cfg + gridSpacing cfg) - total / 2
                         + itemCrossSize cfg / 2,
                       - (itemStart + itemMainSize cfg * (1 - snd a)))
                 else (itemStart + itemMainSize cfg * fst a,
                       total / 2 - of_int gridPos * (itemCrossSize cfg + gridSpacing cfg)
                         - itemCrossSize cfg / 2));
            sz = (if isVertical cfg then (itemCrossSize cfg, itemMainSize cfg)
                  else (itemMainSize cfg, itemCrossSize cfg));
            st2 = setNode n (\<lambda>a. a\<lparr>nodePosition := (align cfg (fst p), align cfg (snd p)),
                                   nodeSize := sz\<rparr>) st1;
            st3 = updateItemClickHandler cfg n idx st2;
            st4 = render cfg n idx st3
        in Inr (playAppear idx st4))"

definition layoutSingleSlotWith ::
    "(state \<Rightarrow> failure + state) \<Rightarrow> config \<Rightarrow> nat option \<Rightarrow> int \<Rightarrow> nat \<Rightarrow> state \<Rightarrow> failure + state" where
  "layoutSingleSlotWith R cfg node idx slot st =
     (if \<not> useVirtualList cfg then Inr st
      else if useDynamicSize cfg then
        (let targetPrefabIndex = (case getItemTypeIndexFn cfg of Some f \<Rightarrow> f idx | None \<Rightarrow> 0);
             currentPrefabIndex = Option.bind (array_get (slotPrefabIndices st) (int slot)) (\<lambda>c. c)
         in case (if currentPrefabIndex = Some targetPrefabIndex then slotNode st slot else None) of
              Some n \<Rightarrow> layoutDynamicNode R cfg n idx st
            | None \<Rightarrow>
                (let st1 =
                       (case (slotNode st slot, nodePool st, currentPrefabIndex) of
                          (Some n, Some pools, Some c) \<Rightarrow>
                            if c \<ge> 0 then pool_put pools (Some n) c st else st
                        | _ \<Rightarrow> st)
                 in case nodePool st1 of
                      None \<Rightarrow> Inr st1
                    | Some pools \<Rightarrow>
                        (case pool_get cfg pools targetPrefabIndex st1 of
                           (None, st2) \<Rightarrow> Inr st2
                         | (Some n, st2) \<Rightarrow>
                             layoutDynamicNode R cfg n idx
                               ((setNode n (\<lambda>a. a\<lparr>nodeParent := True\<rparr>) st2)
                                  \<lparr>slotNodes := array_set (slotNodes st2) slot (Some n),
                                   slotPrefabIndices :=
                                     array_set (slotPrefabIndices st2) slot (Some targetPrefabIndex)\<rparr>))))
      else
        case node of
          None \<Rightarrow> Inr st
        | Some n \<Rightarrow> layoutFixedNode cfg n idx st)"

definition deactivate :: "nat option \<Rightarrow> state \<Rightarrow> state" where
  "deactivate node st =
     (case node of None \<Rightarrow> st | Some n \<Rightarrow> setNode n (\<lambda>a. a\<lparr>nodeActive := False\<rparr>) st)"

text \<open>
  The body of the three slot loops (in \<open>_layoutSlots\<close> and in both directions of
  \<open>_updateVisible\<close>): a slot whose index is past the end is deactivated, any other is
  laid out.
\<close>

definition bindOrHide ::
    "(state \<Rightarrow> failure + state) \<Rightarrow> config \<Rightarrow> int \<Rightarrow> nat \<Rightarrow> state \<Rightarrow> failure + state" where
  "bindOrHide R cfg idx slot st =
     (if idx \<ge> totalCount cfg then Inr (deactivate (slotNode st slot) st)
      else layoutSingleSlotWith R cfg (slotNode st slot) idx slot st)"

definition layoutSlotsWith ::
    "(state \<Rightarrow> failure + state) \<Rightarrow> config \<Rightarrow> int \<Rightarrow> state \<Rightarrow> failure + state" where
  "layoutSlotsWith R cfg firstIndex st =
     (if \<not> useVirtualList cfg then Inr st
      else forEach [0 ..< slots cfg] (\<lambda>s. bindOrHide R cfg (firstIndex + int s) s) st)"

text \<open>
  The rotation of a slot array by \<open>diff\<close>: for \<open>diff > 0\<close>,
  \<open>moved = xs.splice(0, absDiff); xs.push(...moved)\<close>; otherwise
  \<open>moved = xs.splice(xs.length + diff, absDiff); xs.unshift(...moved)\<close>.
\<close>

definition moveSlots :: "int \<Rightarrow> 'a list \<Rightarrow> 'a list" where
  "moveSlots diff xs =
     (if diff > 0
      then snd (splice xs 0 (nat \<bar>diff\<bar>)) @ fst (splice xs 0 (nat \<bar>diff\<bar>))
      else fst (splice xs (int (length xs) + diff) (nat \<bar>diff\<bar>))
             @ snd (splice xs (int (length xs) + diff) (nat \<bar>diff\<bar>)))"

text \<open>
  The rotation of the window in the incremental path of \<open>_updateVisible\<close>: both slot
  arrays are moved (the type indices in dynamic-size mode, if there are any), then
  \<open>_slotFirstIndex\<close> is set.
\<close>

definition rotateWindow :: "config \<Rightarrow> int \<Rightarrow> int \<Rightarrow> state \<Rightarrow> state" where
  "rotateWindow cfg diff newFirst st =
     (let st1 = st\<lparr>slotNodes := moveSlots diff (slotNodes st)\<rparr>;
          st2 = (if useDynamicSize cfg \<and> length (slotPrefabIndices st1) > 0
                 then st1\<lparr>slotPrefabIndices := moveSlots diff (slotPrefabIndices st1)\<rparr>
                 else st1)
      in st2\<lparr>slotFirstIndex := newFirst\<rparr>)"

text \<open>
  \<open>_updateVisible\<close> from \<open>if (force)\<close> on, for the first index \<open>newFirst\<close> it has computed
  from the scroll position.
\<close>

definition reconcileWith ::
    "(state \<Rightarrow> failure + state) \<Rightarrow> config \<Rightarrow> int \<Rightarrow> bool \<Rightarrow> state \<Rightarrow> failure + state" where
  "reconcileWith R cfg newFirst force st =
     (if force then layoutSlotsWith R cfg newFirst (st\<lparr>slotFirstIndex := newFirst\<rparr>)
      else
        let diff = newFirst - slotFirstIndex st
        in if diff = 0 then Inr st
           else if \<bar>diff\<bar> \<ge> int (slots cfg)
           then layoutSlotsWith R cfg newFirst (st\<lparr>slotFirstIndex := newFirst\<rparr>)
           else
             (let absDiff = nat \<bar>diff\<bar>
              in forEach [0 ..< absDiff]
                   (\<lambda>i st'.
                      let slot = (if diff > 0 then slots cfg - absDiff + i else i)
                      in bindOrHide R cfg (slotFirstIndex st' + int slot) slot st')
                   (rotateWindow cfg diff newFirst st)))"

text \<open>
  The first index of a fixed-size list,
  \<open>clamp(Math.floor(searchPos / stride) * gridCount, 0, Math.max(0, totalCount - 1))\<close>.
  With the stride 0 the quotient is an infinity of the sign of \<open>searchPos\<close>, its product
  with \<open>gridCount\<close> an infinity again, and \<open>clamp\<close> (\<open>Math.max(min, Math.min(max, v))\<close>)
  brings it to one of its bounds; \<open>0 / 0\<close> and \<open>Infinity * 0\<close> are \<open>NaN\<close>, which
  \<open>clamp\<close> returns as it is: \<open>None\<close>.
\<close>

definition firstFixed :: "config \<Rightarrow> real \<Rightarrow> int option" where
  "firstFixed cfg searchPos =
     (let stride = itemMainSize cfg + spacing cfg;
          hi = max 0 (totalCount cfg - 1)
      in if stride = 0
         then (if searchPos = 0 \<or> gridCount cfg = 0 then None
               else if (searchPos > 0) = (gridCount cfg > 0) then Some hi else Some 0)
         else Some (clamp (\<lfloor>searchPos / stride\<rfloor> * gridCount cfg) 0 hi))"

text \<open>
  \<open>_updateVisible\<close> up to \<open>if (force)\<close>: the first index \<open>newFirst\<close> for the scroll
  position. A lookup that does not return is \<open>Diverges\<close>; a \<open>NaN\<close> that
  \<open>if (this.totalCount < this._slots) newFirst = 0\<close> does not replace is \<open>NotFinite\<close>.
\<close>

definition newFirstIndex :: "config \<Rightarrow> state \<Rightarrow> failure + int" where
  "newFirstIndex cfg st =
     (let scrollPos = contentPos st;
          searchPos = (if isVertical cfg then clamp scrollPos 0 (contentSize st)
                       else clamp (- scrollPos) 0 (contentSize st));
          first =
            (if useDynamicSize cfg
             then (case calcVisibleRange cfg (prefixPositions st) searchPos of
                     None \<Rightarrow> Inl Diverges
                   | Some rng \<Rightarrow> Inr (Some (fst rng)))
             else Inr (firstFixed cfg searchPos))
      in case first of
           Inl e \<Rightarrow> Inl e
         | Inr f \<Rightarrow>
             (case (if totalCount cfg < int (slots cfg) then Some 0 else f) of
                None \<Rightarrow> Inl NotFinite
              | Some newFirst \<Rightarrow> Inr newFirst))"

definition updateVisibleWith ::
    "(state \<Rightarrow> failure + state) \<Rightarrow> config \<Rightarrow> bool \<Rightarrow> state \<Rightarrow> failure + state" where
  "updateVisibleWith R cfg force st =
     (if \<not> useVirtualList cfg then Inr st
      else
        case newFirstIndex cfg st of
          Inl e \<Rightarrow> Inl e
        | Inr newFirst \<Rightarrow> reconcileWith R cfg newFirst force st)"

fun updateVisible :: "nat \<Rightarrow> config \<Rightarrow> bool \<Rightarrow> state \<Rightarrow> failure + state" where
  "updateVisible 0 cfg force st = Inl OutOfFuel"
| "updateVisible (Suc fuel) cfg force st =
     updateVisibleWith (updateVisible fuel cfg True) cfg force st"


definition layoutSlots :: "nat \<Rightarrow> config \<Rightarrow> int \<Rightarrow> state \<Rightarrow> failure + state" where
  "layoutSlots fuel cfg firstIndex st =
     layoutSlotsWith (updateVisible fuel cfg True) cfg firstIndex st"

definition reconcile :: "nat \<Rightarrow> config \<Rightarrow> int \<Rightarrow> bool \<Rightarrow> state \<Rightarrow> failure + state" where
  "reconcile fuel cfg newFirst force st =
     reconcileWith (updateVisible fuel cfg True) cfg newFirst force st"

section \<open>The gesture state machines\<close>

definition updateRefreshState :: "config \<Rightarrow> RefreshState \<Rightarrow> real \<Rightarrow> state \<Rightarrow> state" where
  "updateRefreshState cfg s offset st =
     (if refreshState st = s then st
      else if onRefreshStateChangeFn cfg
        then st\<lparr>refreshState := s, refreshLog := refreshLog st @ [(s, offset)]\<rparr>
        else st\<lparr>refreshState := s\<rparr>)"

definition updateLoadMoreState :: "config \<Rightarrow> LoadMoreState \<Rightarrow> real \<Rightarrow> state \<Rightarrow> state" where
  "updateLoadMoreState cfg s offset st =
     (if loadMoreState st = s then st
      else if onLoadMoreStateChangeFn cfg
        then st\<lparr>loadMoreState := s, loadMoreLog := loadMoreLog st @ [(s, offset)]\<rparr>
        else st\<lparr>loadMoreState := s\<rparr>)"

definition triggerRefresh :: "config \<Rightarrow> state \<Rightarrow> state" where
  "triggerRefresh cfg st =
     updateRefreshState cfg R_REFRESHING (pullRefreshThreshold cfg)
       (st\<lparr>isRefreshing := True, velocity := 0\<rparr>)"

definition triggerLoadMore :: "config \<Rightarrow> state \<Rightarrow> state" where
  "triggerLoadMore cfg st =
     updateLoadMoreState cfg L_LOADING (loadMoreThreshold cfg)
       (st\<lparr>isLoadingMore := True, velocity := 0\<rparr>)"

definition finishRefresh :: "config \<Rightarrow> bool \<Rightarrow> state \<Rightarrow> state" where
  "finishRefresh cfg success st =
     (if \<not> isRefreshing st then st
      else
        let st1 = updateRefreshState cfg (if success then R_COMPLETE else R_IDLE) 0
                    (st\<lparr>isRefreshing := False, pullOffset := 0\<rparr>)
        in st1\<lparr>scheduled := scheduled st1 @ [RefreshAutoIdle]\<rparr>)"

definition finishLoadMore :: "config \<Rightarrow> bool \<Rightarrow> state \<Rightarrow> state" where
  "finishLoadMore cfg hm st =
     (if \<not> isLoadingMore st then st
      else
        let st1 = st\<lparr>isLoadingMore := False, loadOffset := 0, hasMore := hm\<rparr>
        in if \<not> hm then updateLoadMoreState cfg L_NO_MORE 0 st1
           else
             let st2 = updateLoadMoreState cfg L_COMPLETE 0 st1
             in st2\<lparr>scheduled := scheduled st2 @ [LoadMoreAutoIdle]\<rparr>)"

definition resetLoadMoreState :: "config \<Rightarrow> state \<Rightarrow> state" where
  "resetLoadMoreState cfg st =
     updateLoadMoreState cfg L_IDLE 0
       (st\<lparr>hasMore := True, isLoadingMore := False, loadOffset := 0\<rparr>)"

text \<open>The body of a delayed callback, run when its delay of 0.3 s has passed.\<close>

fun runTimer :: "config \<Rightarrow> timer \<Rightarrow> state \<Rightarrow> state" where
  "runTimer cfg RefreshAutoIdle st =
     (if refreshState st = R_COMPLETE then updateRefreshState cfg R_IDLE 0 st else st)"
| "runTimer cfg LoadMoreAutoIdle st =
     (if loadMoreState st = L_COMPLETE then updateLoadMoreState cfg L_IDLE 0 st else st)"

definition onDown :: "state \<Rightarrow> state" where
  "onDown st = st\<lparr>isTouching := True, velocity := 0, velSamples := [], scrollTween := False\<rparr>"

text \<open>
  The loop of \<open>_onUp\<close> over the samples \<open>i = startIndex + 1, ..., length - 1\<close>: the sums
  of the deltas and of the time differences to the sample before.
\<close>

function velLoop :: "(real \<times> real) list \<Rightarrow> nat \<Rightarrow> real \<Rightarrow> real \<Rightarrow> real \<times> real" where
  "velLoop smp i sm dtSum =
     (if i < length smp
      then velLoop smp (i + 1) (sm + snd (smp ! i)) (dtSum + (fst (smp ! i) - fst (smp ! (i - 1))))
      else (sm, dtSum))"
  by pat_completeness auto
termination
  by (relation "measure (\<lambda>(smp, i, sm, dtSum). length smp - i)") auto

declare velLoop.simps [simp del]

definition releaseVelocity :: "config \<Rightarrow> (real \<times> real) list \<Rightarrow> real" where
  "releaseVelocity cfg smp =
     (if length smp \<ge> 2 then
        let sampleCount = min (length smp) 5;
            startIndex = length smp - sampleCount;
            (sm, dtSum) = velLoop smp (startIndex + 1) 0 0
        in if dtSum > 1 / 1000
           then clamp (sm / dtSum) (- maxVelocity cfg) (maxVelocity cfg)
           else (if length smp > 0
                 then clamp (snd (smp ! (length smp - 1)) * 60) (- maxVelocity cfg) (maxVelocity cfg)
                 else 0)
      else if length smp = 1
        then clamp (snd (smp ! 0) * 60) (- maxVelocity cfg) (maxVelocity cfg)
        else 0)"

definition onUp :: "config \<Rightarrow> state \<Rightarrow> state" where
  "onUp cfg st =
     (if \<not> isTouching st then st
      else
        let st1 = st\<lparr>isTouching := False\<rparr>
        in if refreshState st1 = R_READY \<and> \<not> isRefreshing st1
           then (triggerRefresh cfg st1)\<lparr>velSamples := []\<rparr>
           else if loadMoreState st1 = L_READY \<and> \<not> isLoadingMore st1
           then (triggerLoadMore cfg st1)\<lparr>velSamples := []\<rparr>
           else
             let st2 = (if refreshState st1 \<noteq> R_REFRESHING
                        then updateRefreshState cfg R_IDLE 0 (st1\<lparr>pullOffset := 0\<rparr>)
                        else st1);
                 st3 = (if loadMoreState st2 \<noteq> L_LOADING
                        then updateLoadMoreState cfg L_IDLE 0 (st2\<lparr>loadOffset := 0\<rparr>)
                        else st2)
             in st3\<lparr>velocity := releaseVelocity cfg (velSamples st3), velSamples := []\<rparr>)"

text \<open>
  \<open>Math.min(overOffset / maxOffset, 1)\<close>. With \<open>maxOffset = 0\<close> the quotient of a
  positive offset is an infinity, whose minimum with 1 is 1; \<open>0 / 0\<close> is \<open>NaN\<close>.
\<close>

definition ratioMin :: "real \<Rightarrow> real \<Rightarrow> real option" where
  "ratioMin overOffset maxOffset =
     (if maxOffset = 0 then (if overOffset > 0 then Some 1 else None)
      else Some (min (overOffset / maxOffset) 1))"

text \<open>
  The two gesture blocks of \<open>_onMove\<close>. Each takes the raw \<open>delta\<close>, the content
  position \<open>pos\<close> read at the start of the handler and the current \<open>finalDelta\<close>, and
  returns the new \<open>finalDelta\<close> with the state.
\<close>

definition refreshPull :: "config \<Rightarrow> real \<Rightarrow> real \<Rightarrow> real \<Rightarrow> state \<Rightarrow> failure + real \<times> state" where
  "refreshPull cfg delta pos finalDelta st =
     (let minBound = min (boundsMin st) (boundsMax st);
          maxBound = max (boundsMin st) (boundsMax st);
          atTopBound = (if isVertical cfg then pos \<le> minBound else pos \<ge> maxBound);
          pullingDown = (if isVertical cfg then delta < 0 else delta > 0)
      in if enablePullRefresh cfg \<and> \<not> isRefreshing st \<and> atTopBound \<and> pullingDown
         then
           (let overOffset = (if isVertical cfg then minBound - pos else pos - maxBound)
            in case ratioMin overOffset (pullRefreshMaxOffset cfg) of
                 None \<Rightarrow> Inl NotFinite
               | Some q \<Rightarrow>
                   (let resistance = 1 - q * (1 - pullDampingRate cfg);
                        fd = delta * resistance;
                        off = min (overOffset + \<bar>fd\<bar>) (pullRefreshMaxOffset cfg);
                        st1 = st\<lparr>pullOffset := off\<rparr>
                    in Inr (fd,
                         if off \<ge> pullRefreshThreshold cfg
                         then updateRefreshState cfg R_READY off st1
                         else updateRefreshState cfg R_PULLING off st1)))
         else Inr (finalDelta, st))"

definition loadMorePull :: "config \<Rightarrow> real \<Rightarrow> real \<Rightarrow> real \<Rightarrow> state \<Rightarrow> failure + real \<times> state" where
  "loadMorePull cfg delta pos finalDelta st =
     (let minBound = min (boundsMin st) (boundsMax st);
          maxBound = max (boundsMin st) (boundsMax st);
          atBottomBound = (if isVertical cfg then pos \<ge> maxBound else pos \<le> minBound);
          pullingUp = (if isVertical cfg then delta > 0 else delta < 0)
      in if enableLoadMore cfg \<and> \<not> isLoadingMore st \<and> hasMore st \<and> atBottomBound \<and> pullingUp
         then
           (let overOffset = (if isVertical cfg then pos - maxBound else minBound - pos)
            in case ratioMin overOffset (loadMoreMaxOffset cfg) of
                 None \<Rightarrow> Inl NotFinite
               | Some q \<Rightarrow>
                   (let resistance = 1 - q * (1 - pullDampingRate cfg);
                        fd = delta * resistance;
                        off = min (overOffset + \<bar>fd\<bar>) (loadMoreMaxOffset cfg);
                        st1 = st\<lparr>loadOffset := off\<rparr>
                    in Inr (fd,
                         if off \<ge> loadMoreThreshold cfg
                         then updateLoadMoreState cfg L_READY off st1
                         else updateLoadMoreState cfg L_PULLING off st1)))
         else Inr (finalDelta, st))"

text \<open>
  \<open>_onMove\<close> for a touch event whose main-axis delta is \<open>delta\<close>, handled at time \<open>t\<close>
  (\<open>performance.now() / 1000\<close>).
\<close>

definition onMove :: "nat \<Rightarrow> config \<Rightarrow> real \<Rightarrow> real \<Rightarrow> state \<Rightarrow> failure + state" where
  "onMove fuel cfg delta t st =
     (if \<not> isTouching st then Inr st
      else
        case refreshPull cfg delta (contentPos st) delta st of
          Inl e \<Rightarrow> Inl e
        | Inr (fd1, st1) \<Rightarrow>
            (case loadMorePull cfg delta (contentPos st) fd1 st1 of
               Inl e \<Rightarrow> Inl e
             | Inr (fd, st2) \<Rightarrow>
                 (let st3 = setContentMainPos cfg (align cfg (contentPos st + fd)) st2;
                      st4 = st3\<lparr>velSamples :=
                                  dropWhile (\<lambda>smp. fst smp < t - velocityWindow cfg)
                                    (velSamples st3 @ [(t, fd)])\<rparr>
                  in if useVirtualList cfg then updateVisible fuel cfg False st4 else Inr st4)))"

section \<open>Example inputs\<close>

text \<open>
  A vertical fixed-size list as the property panel's defaults configure it, both pull
  gestures enabled and both state callbacks set; and its state at rest.
\<close>

definition cfg0 :: config where
  "cfg0 =
     \<lparr>useVirtualList = True, direction = VERTICAL, useDynamicSize = False,
      itemMainSize = 100, itemCrossSize = 100, gridCount = 1, gridSpacing = 8, spacing = 8,
      totalCount = 50, buffer = 1, enablePullRefresh = True, pullRefreshThreshold = 100,
      pullRefreshMaxOffset = 150, enableLoadMore = True, loadMoreThreshold = 100,
      loadMoreMaxOffset = 150, pullDampingRate = 1 / 2, pixelAlign = True,
      velocityWindow = 8 / 100, maxVelocity = 6000, viewportSize = 300, slots = 3,
      renderItemFn = None, getItemHeightFn = None, getItemTypeIndexFn = None,
      onRefreshStateChangeFn = True, onLoadMoreStateChangeFn = True,
      anchor = (\<lambda>n. (1 / 2, 1 / 2)), prefabSize = (\<lambda>ty. (100, 100))\<rparr>"

definition node0 :: node_attrs where
  "node0 =
     \<lparr>nodeActive = True, nodeDataIndex = - 1, nodePosition = (0, 0), nodeSize = (100, 100),
      nodeParent = True, nodeDestroyed = False\<rparr>"

definition st0 :: state where
  "st0 =
     \<lparr>contentPos = 0, contentMainSize = 5392, contentSize = 5392, boundsMin = 0,
      boundsMax = 5092, velocity = 0, isTouching = False, velSamples = [],
      slotNodes = [Some 0, Some 1, Some 2], slotFirstIndex = 0, itemSizes = [],
      prefixPositions = [], nodePool = None, slotPrefabIndices = [],
      needAnimateIndices = {}, scrollTween = False, refreshState = R_IDLE,
      loadMoreState = L_IDLE, pullOffset = 0, loadOffset = 0, isRefreshing = False,
      isLoadingMore = False, hasMore = True, nodes = (\<lambda>n. node0), nextNode = 3,
      renderLog = [], refreshLog = [], loadMoreLog = [], scheduled = []\<rparr>"

definition stLoading :: state where
  "stLoading = st0\<lparr>loadMoreState := L_LOADING, isLoadingMore := True\<rparr>"

definition stDrag :: state where
  "stDrag = st0\<lparr>isTouching := True, velSamples := [(0, 10), (1 / 100, 10)]\<rparr>"

definition stPull :: state where
  "stPull = st0\<lparr>isTouching := True, contentPos := - 100\<rparr>"

text \<open>
  A dynamic-size list of three items of size 50 without spacing, in a viewport of 80 and
  of 100; and the same list with the middle item of size 0.
\<close>

definition cfgC :: config where
  "cfgC = cfg0\<lparr>useDynamicSize := True, spacing := 0, totalCount := 3, buffer := 0,
                viewportSize := 80\<rparr>"

definition cfgW :: config where
  "cfgW = cfgC\<lparr>viewportSize := 100\<rparr>"

definition stC :: state where
  "stC = st0\<lparr>itemSizes := [50, 50, 50]\<rparr>"

definition stZ :: state where
  "stZ = st0\<lparr>itemSizes := [50, 0, 50]\<rparr>"

text \<open>
  A dynamic-size list of four items of size 50 in two slots, with prefabs for the types
  0 and 1, as \<open>_initDynamicSlots\<close> finds it before the first layout. In \<open>cfgP\<close> the
  type callback gives item 2 the type 5, for which there is no prefab. In \<open>cfgH\<close>
  every item has type 0 and renders are logged; \<open>stH\<close> is the state after the first
  layout.
\<close>

definition cfgP :: config where
  "cfgP = cfg0\<lparr>useDynamicSize := True, spacing := 0, totalCount := 4, buffer := 0,
                viewportSize := 100, slots := 2, getItemHeightFn := Some (\<lambda>i. 50),
                getItemTypeIndexFn := Some (\<lambda>i. if i = 2 then 5 else if i = 1 then 1 else 0)\<rparr>"

definition stP :: state where
  "stP = buildPrefixSum cfgP
     (st0\<lparr>itemSizes := [50, 50, 50, 50], slotNodes := [None, None],
          slotPrefabIndices := [Some (- 1), Some (- 1)],
          nodePool := Some (\<lambda>ty. if ty = 0 \<or> ty = 1 then Some [] else None),
          nextNode := 0\<rparr>)"

definition cfgH :: config where
  "cfgH = cfg0\<lparr>useDynamicSize := True, spacing := 0, totalCount := 4, buffer := 0,
                viewportSize := 100, slots := 2, getItemHeightFn := Some (\<lambda>i. 50),
                renderItemFn := Some (\<lambda>n i sz. sz)\<rparr>"

definition stH :: state where
  "stH = (case layoutSlots 1 cfgH 0 stP of Inr s \<Rightarrow> s | Inl e \<Rightarrow> stP)"

text \<open>
  The fixed-size list at rest with the three slots showing items 0, 1 and 2.
\<close>

definition stWin :: state where
  "stWin = st0\<lparr>nodes := (\<lambda>n. node0\<lparr>nodeDataIndex := int n\<rparr>)\<rparr>"

text \<open>
  A dynamic-size list of five items recorded with size 50, of which item 2 renders with
  height 10: laid out at the content position 150 (the two slots show items 3 and 4),
  then with the content position 120.
\<close>

definition cfgF :: config where
  "cfgF = cfg0\<lparr>useDynamicSize := True, spacing := 0, totalCount := 5, buffer := 0,
                viewportSize := 100, slots := 2,
                renderItemFn := Some (\<lambda>n i sz. if i = 2 then (100, 10) else (100, 50))\<rparr>"

definition stF :: state where
  "stF = (case updateVisible 1 cfgF True
                 (buildPrefixSum cfgF
                    (st0\<lparr>itemSizes := [50, 50, 50, 50, 50], slotNodes := [None, None],
                         slotPrefabIndices := [Some (- 1), Some (- 1)],
                         nodePool := Some (\<lambda>ty. if ty = 0 then Some [] else None),
                         nextNode := 0, contentPos := 150\<rparr>)) of
            Inr s \<Rightarrow> s\<lparr>contentPos := 120\<rparr>
          | Inl e \<Rightarrow> st0)"

text \<open>The dynamic-size list laid out, touched and pulled 100 past its top.\<close>

definition stHPull :: state where
  "stHPull = stH\<lparr>isTouching := True, contentPos := - 100\<rparr>"


section \<open>Notions the properties are stated with\<close>

text \<open>
  A sequence of writes to the two gesture states, each a call of \<open>_updateRefreshState\<close>
  or \<open>_updateLoadMoreState\<close>; the states written to each machine; and the callback
  invocations the sequence adds to each log.
\<close>

datatype fsm_write = WriteRefresh RefreshState real | WriteLoadMore LoadMoreState real

fun applyWrite :: "config \<Rightarrow> fsm_write \<Rightarrow> state \<Rightarrow> state" where
  "applyWrite cfg (WriteRefresh s off) st = updateRefreshState cfg s off st"
| "applyWrite cfg (WriteLoadMore s off) st = updateLoadMoreState cfg s off st"

fun refreshWrites :: "fsm_write list \<Rightarrow> RefreshState list" where
  "refreshWrites [] = []"
| "refreshWrites (WriteRefresh s off # ws) = s # refreshWrites ws"
| "refreshWrites (WriteLoadMore s off # ws) = refreshWrites ws"

fun loadMoreWrites :: "fsm_write list \<Rightarrow> LoadMoreState list" where
  "loadMoreWrites [] = []"
| "loadMoreWrites (WriteRefresh s off # ws) = loadMoreWrites ws"
| "loadMoreWrites (WriteLoadMore s off # ws) = s # loadMoreWrites ws"

definition refreshCalls :: "config \<Rightarrow> fsm_write list \<Rightarrow> state \<Rightarrow> (RefreshState \<times> real) list" where
  "refreshCalls cfg ws st =
     drop (length (refreshLog st)) (refreshLog (fold (applyWrite cfg) ws st))"

definition loadMoreCalls :: "config \<Rightarrow> fsm_write list \<Rightarrow> state \<Rightarrow> (LoadMoreState \<times> real) list" where
  "loadMoreCalls cfg ws st =
     drop (length (loadMoreLog st)) (loadMoreLog (fold (applyWrite cfg) ws st))"

text \<open>
  The part of the state that belongs to scrolling and the gestures, which the windowing
  engine never writes; and the property of a re-entrant call to leave it alone.
\<close>

definition gesture ::
    "state \<Rightarrow> real \<times> real \<times> bool \<times> (real \<times> real) list \<times> RefreshState \<times> LoadMoreState \<times>
       (real \<times> real \<times> bool \<times> bool \<times> bool) \<times> (RefreshState \<times> real) list \<times>
       (LoadMoreState \<times> real) list \<times> timer list \<times> bool" where
  "gesture st =
     (contentPos st, velocity st, isTouching st, velSamples st, refreshState st,
      loadMoreState st, (pullOffset st, loadOffset st, isRefreshing st, isLoadingMore st, hasMore st),
      refreshLog st, loadMoreLog st, scheduled st, scrollTween st)"

definition frames :: "(state \<Rightarrow> failure + state) \<Rightarrow> bool" where
  "frames R = (\<forall>st st'. R st = Inr st' \<longrightarrow> gesture st' = gesture st)"

text \<open>
  The drag samples the release velocity is taken from (the last five at most), and the
  time that passes between the first and the last sample of a list, summed step by step.
\<close>

definition recentSamples :: "(real \<times> real) list \<Rightarrow> (real \<times> real) list" where
  "recentSamples smp = drop (length smp - min (length smp) 5) smp"

fun elapsed :: "(real \<times> real) list \<Rightarrow> real" where
  "elapsed (a # b # xs) = (fst b - fst a) + elapsed (b # xs)"
| "elapsed xs = 0"

text \<open>
  The release velocity as the specification words it: the deltas of the recent samples,
  all of them, over their summed elapsed time; the last delta times 60 for fewer than two
  samples or less than a millisecond.
\<close>

definition specReleaseVelocity :: "config \<Rightarrow> (real \<times> real) list \<Rightarrow> real" where
  "specReleaseVelocity cfg smp =
     (if length smp < 2 \<or> elapsed (recentSamples smp) < 1 / 1000
      then clamp (snd (last smp) * 60) (- maxVelocity cfg) (maxVelocity cfg)
      else clamp (sum_list (map snd (recentSamples smp)) / elapsed (recentSamples smp))
             (- maxVelocity cfg) (maxVelocity cfg))"

text \<open>The resistance of a pull as the specification words it.\<close>

definition specResistance :: "real \<Rightarrow> real \<Rightarrow> real \<Rightarrow> real" where
  "specResistance overOffset maxOffset dampingRate =
     1 - min (overOffset / maxOffset) 1 * (1 - dampingRate)"

text \<open>
  \<open>k\<close> is the first index of the table whose start exceeds \<open>pos\<close> (the length of the
  table if there is none).
\<close>

definition firstAbove :: "real list \<Rightarrow> real \<Rightarrow> nat \<Rightarrow> bool" where
  "firstAbove ps pos k =
     (k \<le> length ps \<and> (\<forall>i<k. ps ! i \<le> pos) \<and>
      (\<forall>i. k \<le> i \<and> i < length ps \<longrightarrow> pos < ps ! i))"

text \<open>
  The span \<open>[start[i], start[i] + size[i]]\<close> of item \<open>i\<close> and the viewport
  \<open>[pos, pos + vp]\<close> intersect as closed intervals, as the specification words the
  coverage property.
\<close>

definition spanIntersects :: "real list \<Rightarrow> real list \<Rightarrow> nat \<Rightarrow> real \<Rightarrow> real \<Rightarrow> bool" where
  "spanIntersects ps sizes i pos vp = (ps ! i \<le> pos + vp \<and> pos \<le> ps ! i + sizes ! i)"

text \<open>
  What slot \<open>s\<close> shows: the data index of its node when the node is active, nothing
  when the node is inactive or the slot is empty.
\<close>

definition shownItem :: "state \<Rightarrow> nat \<Rightarrow> int option" where
  "shownItem st s =
     (case slotNode st s of
        Some n \<Rightarrow> if nodeActive (nodes st n) then Some (nodeDataIndex (nodes st n)) else None
      | None \<Rightarrow> None)"

text \<open>
  What slot \<open>s\<close> of a window starting at \<open>first\<close> should show.
\<close>

definition expectedItem :: "config \<Rightarrow> int \<Rightarrow> nat \<Rightarrow> int option" where
  "expectedItem cfg first s =
     (if first + int s < totalCount cfg then Some (first + int s) else None)"

definition windowShows :: "config \<Rightarrow> state \<Rightarrow> int \<Rightarrow> bool" where
  "windowShows cfg st first = (\<forall>s<slots cfg. shownItem st s = expectedItem cfg first s)"

text \<open>
  The slot array of a fixed-size list after \<open>_initSlots\<close>: one node of its own in every slot.
\<close>

definition fixedOk :: "config \<Rightarrow> state \<Rightarrow> bool" where
  "fixedOk cfg st =
     (useVirtualList cfg \<and> \<not> useDynamicSize cfg \<and> gridCount cfg \<noteq> 0 \<and>
      length (slotNodes st) = slots cfg \<and> distinct (slotNodes st) \<and> None \<notin> set (slotNodes st))"

text \<open>
  The type index of an item, as \<open>_layoutSingleSlot\<close> takes it:
  \<open>getItemTypeIndexFn ? getItemTypeIndexFn(idx) : 0\<close>.
\<close>

definition itemType :: "config \<Rightarrow> int \<Rightarrow> int" where
  "itemType cfg idx = (case getItemTypeIndexFn cfg of Some f \<Rightarrow> f idx | None \<Rightarrow> 0)"

text \<open>
  The slot arrays \<open>xs\<close> (nodes) and \<open>cs\<close> (type indices) and the pools of a dynamic-size
  list fit together: there is a pool for the type of every item; the idle nodes of a pool
  are distinct, exist, and are in no slot and in no other pool; no node is in two slots;
  and the node of a slot exists and the slot records a type that has a pool.
\<close>

definition poolsOk ::
    "config \<Rightarrow> (int \<Rightarrow> nat list option) \<Rightarrow> nat option list \<Rightarrow> int option list \<Rightarrow> nat \<Rightarrow> bool" where
  "poolsOk cfg pools xs cs nn =
     (length cs = length xs \<and>
      (\<forall>idx. 0 \<le> idx \<and> idx < totalCount cfg \<longrightarrow> pools (itemType cfg idx) \<noteq> None) \<and>
      (\<forall>ty p. pools ty = Some p \<longrightarrow> distinct p \<and> (\<forall>n\<in>set p. n < nn \<and> Some n \<notin> set xs)) \<and>
      (\<forall>ty ty' p p' n. pools ty = Some p \<and> pools ty' = Some p' \<and> n \<in> set p \<and> n \<in> set p'
           \<longrightarrow> ty = ty') \<and>
      (\<forall>n. count (mset xs) (Some n) \<le> 1) \<and>
      (\<forall>(x, c) \<in> set (zip xs cs). \<forall>n. x = Some n \<longrightarrow>
           n < nn \<and> (\<exists>ty. c = Some ty \<and> pools ty \<noteq> None)))"

text \<open>
  The recorded sizes of the items in \<open>A\<close> need no correction: each has a recorded size
  and start, and the size feedback of \<open>_layoutSingleSlot\<close> agrees with the recorded
  size, which is \<open>getItemHeightFn(idx)\<close> if that callback is set, and otherwise within one
  pixel of the main size of any node that \<open>renderItemFn\<close> has rendered for the item.
\<close>

definition sizesSettled :: "config \<Rightarrow> int set \<Rightarrow> state \<Rightarrow> bool" where
  "sizesSettled cfg A st =
     (\<forall>idx\<in>A. 0 \<le> idx \<and> idx < totalCount cfg \<longrightarrow>
        (\<exists>sz p. array_get (itemSizes st) idx = Some sz \<and>
                array_get (prefixPositions st) idx = Some p \<and>
                (case getItemHeightFn cfg of
                   Some h \<Rightarrow> h idx = sz
                 | None \<Rightarrow>
                     (case renderItemFn cfg of
                        Some f \<Rightarrow>
                          \<forall>n old. \<bar>sz - (if isVertical cfg then snd (f n idx old)
                                          else fst (f n idx old))\<bar> \<le> 1
                      | None \<Rightarrow> False))))"

text \<open>
  A dynamic-size list after \<open>_initDynamicSlots\<close>: \<open>_slots\<close> slots, a node pool that fits
  them, and the sizes of the items in \<open>A\<close> settled.
\<close>

definition dynOk :: "config \<Rightarrow> int set \<Rightarrow> state \<Rightarrow> bool" where
  "dynOk cfg A st =
     (useVirtualList cfg \<and> useDynamicSize cfg \<and> length (slotNodes st) = slots cfg \<and>
      sizesSettled cfg A st \<and>
      (case nodePool st of
         None \<Rightarrow> False
       | Some pools \<Rightarrow> poolsOk cfg pools (slotNodes st) (slotPrefabIndices st) (nextNode st)))"

text \<open>The items of the window that starts at \<open>first\<close>.\<close>

definition windowItems :: "config \<Rightarrow> int \<Rightarrow> int set" where
  "windowItems cfg first = {first ..< first + int (slots cfg)}"

text \<open>
  Binding or hiding one slot for an item in \<open>A\<close> makes no re-entrant call (the result is
  the same whatever that call would do), keeps the invariant \<open>Inv\<close>, leaves the first
  index of the window, makes the slot show the item (or nothing, past the last item) and
  leaves what the other slots show.
\<close>

definition bindsSlots :: "config \<Rightarrow> int set \<Rightarrow> (state \<Rightarrow> bool) \<Rightarrow> bool" where
  "bindsSlots cfg A Inv =
     (\<forall>st slot idx. Inv st \<and> slot < slots cfg \<and> 0 \<le> idx \<and> idx \<in> A \<longrightarrow>
        (\<exists>st'. (\<forall>R. bindOrHide R cfg idx slot st = Inr st') \<and> Inv st' \<and>
           slotFirstIndex st' = slotFirstIndex st \<and>
           shownItem st' slot = (if idx < totalCount cfg then Some idx else None) \<and>
           (\<forall>s'<slots cfg. s' \<noteq> slot \<longrightarrow> shownItem st' s' = shownItem st s')))"

text \<open>
  What \<open>_buildPrefixSum\<close> and \<open>_rebuildPrefixSumFrom\<close> write: the sizes, the starts, the
  content size and the scroll bounds.
\<close>

definition sizeTable :: "state \<Rightarrow> real list \<times> real list \<times> real \<times> real \<times> real \<times> real" where
  "sizeTable st =
     (itemSizes st, prefixPositions st, contentSize st, contentMainSize st, boundsMin st,
      boundsMax st)"

section \<open>Edge-triggered state changes\<close>

lemma refresh_log_of_writes:
  "map fst (refreshLog (fold (applyWrite cfg) ws st)) =
     map fst (refreshLog st) @
     (if onRefreshStateChangeFn cfg
      then tl (remdups_adj (refreshState st # refreshWrites ws)) else [])"
proof (induction ws arbitrary: st)
  case Nil
  show ?case by simp
next
  case (Cons w ws)
  show ?case
    by (cases w) (simp_all add: Cons.IH updateRefreshState_def updateLoadMoreState_def)
qed

lemma loadMore_log_of_writes:
  "map fst (loadMoreLog (fold (applyWrite cfg) ws st)) =
     map fst (loadMoreLog st) @
     (if onLoadMoreStateChangeFn cfg
      then tl (remdups_adj (loadMoreState st # loadMoreWrites ws)) else [])"
proof (induction ws arbitrary: st)
  case Nil
  show ?case by simp
next
  case (Cons w ws)
  show ?case
    by (cases w) (simp_all add: Cons.IH updateRefreshState_def updateLoadMoreState_def)
qed

lemma states_of_writes:
  "refreshState (fold (applyWrite cfg) ws st) = last (refreshState st # refreshWrites ws) \<and>
   loadMoreState (fold (applyWrite cfg) ws st) = last (loadMoreState st # loadMoreWrites ws)"
proof (induction ws arbitrary: st)
  case Nil
  show ?case by simp
next
  case (Cons w ws)
  show ?case
    by (cases w) (simp_all add: Cons.IH updateRefreshState_def updateLoadMoreState_def)
qed

lemma logs_grow:
  "(\<exists>new. refreshLog (fold (applyWrite cfg) ws st) = refreshLog st @ new) \<and>
   (\<exists>new. loadMoreLog (fold (applyWrite cfg) ws st) = loadMoreLog st @ new)"
proof (induction ws arbitrary: st)
  case Nil
  show ?case by simp
next
  case (Cons w ws)
  show ?case
    using Cons.IH[of "applyWrite cfg w st"]
    by (cases w) (auto simp add: updateRefreshState_def updateLoadMoreState_def)
qed

lemma distinct_adj_head_tl_remdups:
  "distinct_adj (x # tl (remdups_adj (x # xs)))"
proof -
  have "remdups_adj (x # xs) = x # tl (remdups_adj (x # xs))"
    by (cases xs) (auto simp: remdups_adj_Cons split: list.splits)
  then show ?thesis
    by (metis distinct_adj_remdups_adj)
qed

text \<open>
  C5. Over any sequence of writes to the refresh state and the load-more state, each
  log grows by the callback invocations of the sequence; the states these carry are the
  written states with every write that repeats the current state left out (so one
  invocation per change of the state value, none for a write of the current value), or
  none at all when the callback is not set; and the state before the sequence followed by
  the invoked states never repeats a value twice in a row.
\<close>

theorem state_change_edge_triggered:
  "refreshLog (fold (applyWrite cfg) ws st) = refreshLog st @ refreshCalls cfg ws st \<and>
   map fst (refreshCalls cfg ws st) =
     (if onRefreshStateChangeFn cfg
      then tl (remdups_adj (refreshState st # refreshWrites ws)) else []) \<and>
   distinct_adj (refreshState st # map fst (refreshCalls cfg ws st)) \<and>
   refreshState (fold (applyWrite cfg) ws st) = last (refreshState st # refreshWrites ws) \<and>
   loadMoreLog (fold (applyWrite cfg) ws st) = loadMoreLog st @ loadMoreCalls cfg ws st \<and>
   map fst (loadMoreCalls cfg ws st) =
     (if onLoadMoreStateChangeFn cfg
      then tl (remdups_adj (loadMoreState st # loadMoreWrites ws)) else []) \<and>
   distinct_adj (loadMoreState st # map fst (loadMoreCalls cfg ws st)) \<and>
   loadMoreState (fold (applyWrite cfg) ws st) = last (loadMoreState st # loadMoreWrites ws)"
proof -
  let ?res = "fold (applyWrite cfg) ws st"
  obtain new1 new2 where
    g1: "refreshLog ?res = refreshLog st @ new1" and
    g2: "loadMoreLog ?res = loadMoreLog st @ new2"
    using logs_grow[of cfg ws st] by blast
  have c1: "refreshCalls cfg ws st = new1" by (simp add: refreshCalls_def g1)
  have c2: "loadMoreCalls cfg ws st = new2" by (simp add: loadMoreCalls_def g2)
  have m1: "map fst new1 =
      (if onRefreshStateChangeFn cfg
       then tl (remdups_adj (refreshState st # refreshWrites ws)) else [])"
    using refresh_log_of_writes[of cfg ws st] by (simp add: g1)
  have m2: "map fst new2 =
      (if onLoadMoreStateChangeFn cfg
       then tl (remdups_adj (loadMoreState st # loadMoreWrites ws)) else [])"
    using loadMore_log_of_writes[of cfg ws st] by (simp add: g2)
  have d1: "distinct_adj (refreshState st # map fst new1)"
    unfolding m1 by (simp add: distinct_adj_head_tl_remdups)
  have d2: "distinct_adj (loadMoreState st # map fst new2)"
    unfolding m2 by (simp add: distinct_adj_head_tl_remdups)
  show ?thesis
    using g1 g2 m1 m2 d1 d2 states_of_writes[of cfg ws st] unfolding c1 c2 by blast
qed

theorem state_change_edge_triggered_witness:
  "map fst (refreshCalls cfg0
      [WriteRefresh R_PULLING 10, WriteRefresh R_PULLING 20, WriteLoadMore L_PULLING 5,
       WriteRefresh R_READY 100, WriteRefresh R_READY 120, WriteLoadMore L_PULLING 6] st0) =
     [R_PULLING, R_READY] \<and>
   map fst (loadMoreCalls cfg0
      [WriteRefresh R_PULLING 10, WriteRefresh R_PULLING 20, WriteLoadMore L_PULLING 5,
       WriteRefresh R_READY 100, WriteRefresh R_READY 120, WriteLoadMore L_PULLING 6] st0) =
     [L_PULLING]"
  using state_change_edge_triggered[of cfg0
      "[WriteRefresh R_PULLING 10, WriteRefresh R_PULLING 20, WriteLoadMore L_PULLING 5,
        WriteRefresh R_READY 100, WriteRefresh R_READY 120, WriteLoadMore L_PULLING 6]" st0]
  by (simp add: cfg0_def st0_def)

section \<open>Finishing a load that is not in progress\<close>

text \<open>
  C10. While no load-more is in progress (\<open>_isLoadingMore\<close> is false),
  \<open>finishLoadMore\<close> with either argument returns the state as it is: no field changes
  (so \<open>_hasMore\<close> and the load-more state keep their values), no callback is logged and
  no delayed callback is scheduled.
\<close>

theorem finishLoadMore_not_loading:
  "\<not> isLoadingMore st \<Longrightarrow> finishLoadMore cfg hm st = st"
  by (simp add: finishLoadMore_def)

theorem finishLoadMore_not_loading_witness:
  "\<not> isLoadingMore st0 \<and> finishLoadMore cfg0 False st0 = st0 \<and> hasMore st0"
  using finishLoadMore_not_loading[of st0 cfg0 False] by (simp add: st0_def)

section \<open>The state after a load that found no more data\<close>

text \<open>
  C8. From \<open>LOADING\<close>, \<open>finishLoadMore(false)\<close> sets the state to \<open>NO_MORE\<close> with
  \<open>_hasMore\<close> false. A touch that is pressed and released next runs \<open>_onUp\<close>, which
  resets every load-more state other than \<open>LOADING\<close> to \<open>IDLE\<close>: the state does
  not stay \<open>NO_MORE\<close>, the callback is told \<open>IDLE\<close>, and \<open>_hasMore\<close> is still false.
\<close>

theorem no_more_reset_by_release:
  "loadMoreState (finishLoadMore cfg0 False stLoading) = L_NO_MORE \<and>
   loadMoreState (onUp cfg0 (onDown (finishLoadMore cfg0 False stLoading))) = L_IDLE \<and>
   loadMoreLog (onUp cfg0 (onDown (finishLoadMore cfg0 False stLoading))) =
     [(L_NO_MORE, 0), (L_IDLE, 0)] \<and>
   hasMore (onUp cfg0 (onDown (finishLoadMore cfg0 False stLoading))) = False"
  by (simp add: finishLoadMore_def updateLoadMoreState_def updateRefreshState_def onUp_def
        onDown_def cfg0_def st0_def stLoading_def Let_def)

section \<open>The velocity at release\<close>

lemma velLoop_sums:
  "0 < i \<Longrightarrow> i \<le> length smp \<Longrightarrow>
   velLoop smp i sm dt =
     (sm + sum_list (map snd (drop i smp)), dt + elapsed (drop (i - 1) smp))"
proof (induction smp i sm dt rule: velLoop.induct)
  case (1 smp i sm dtSum)
  show ?case
  proof (cases "i < length smp")
    case True
    have d1: "drop i smp = smp ! i # drop (Suc i) smp"
      using True by (simp add: Cons_nth_drop_Suc)
    have d0: "drop (i - 1) smp = smp ! (i - 1) # drop i smp"
      using True "1.prems" by (metis Cons_nth_drop_Suc Suc_diff_1 less_imp_diff_less)
    have "velLoop smp i sm dtSum =
            velLoop smp (i + 1) (sm + snd (smp ! i))
              (dtSum + (fst (smp ! i) - fst (smp ! (i - 1))))"
      using True by (subst velLoop.simps) simp
    also have "\<dots> = (sm + snd (smp ! i) + sum_list (map snd (drop (i + 1) smp)),
                      dtSum + (fst (smp ! i) - fst (smp ! (i - 1))) + elapsed (drop i smp))"
      using "1.IH"[OF True] True by simp
    finally have step: "velLoop smp i sm dtSum =
        (sm + snd (smp ! i) + sum_list (map snd (drop (i + 1) smp)),
         dtSum + (fst (smp ! i) - fst (smp ! (i - 1))) + elapsed (drop i smp))" .
    have e: "elapsed (drop (i - 1) smp) =
        (fst (smp ! i) - fst (smp ! (i - 1))) + elapsed (drop i smp)"
      by (simp only: d0 d1 elapsed.simps)
    have s: "sum_list (map snd (drop i smp)) =
        snd (smp ! i) + sum_list (map snd (drop (i + 1) smp))"
      by (simp add: d1)
    show ?thesis
      by (simp only: step e s) simp
  next
    case False
    with "1.prems" have eq: "i = length smp" by simp
    have "drop (length smp - 1) smp = [last smp]"
      using "1.prems" eq
      by (metis One_nat_def append_butlast_last_id append_eq_conv_conj length_butlast
            length_greater_0_conv)
    then show ?thesis
      using eq by (subst velLoop.simps) simp
  qed
qed

lemma releaseVelocity_eq:
  "releaseVelocity cfg smp =
     (if length smp \<ge> 2 \<and> elapsed (recentSamples smp) > 1 / 1000
      then clamp (sum_list (map snd (tl (recentSamples smp))) / elapsed (recentSamples smp))
             (- maxVelocity cfg) (maxVelocity cfg)
      else if smp \<noteq> []
      then clamp (snd (last smp) * 60) (- maxVelocity cfg) (maxVelocity cfg)
      else 0)"
proof (cases "length smp \<ge> 2")
  case True
  let ?k = "length smp - min (length smp) 5"
  have k: "0 < ?k + 1" "?k + 1 \<le> length smp" using True by auto
  have loop: "velLoop smp (?k + 1) 0 0 =
      (sum_list (map snd (tl (recentSamples smp))), elapsed (recentSamples smp))"
    using velLoop_sums[OF k, of 0 0] by (simp add: recentSamples_def drop_Suc tl_drop)
  have ne: "smp \<noteq> []" using True by auto
  show ?thesis
    using True ne loop by (simp add: releaseVelocity_def Let_def last_conv_nth)
next
  case False
  then consider "smp = []" | x where "smp = [x]"
    by (cases smp; cases "tl smp"; auto)
  then show ?thesis
    by cases (simp_all add: releaseVelocity_def)
qed

text \<open>
  C7, as amended. When a drag is released and neither gesture is ready to trigger,
  \<open>_onUp\<close> sets the velocity as follows. With at least two samples, of which the
  last five at most are used, and more than a millisecond between the first and the last
  of those: the sum of their deltas without the first one's, divided by that time,
  clamped to the maximum velocity. With at least two samples and no more than a
  millisecond, or with one sample: the last delta times 60, clamped. With no sample: 0.
\<close>

theorem release_velocity:
  assumes "isTouching st"
    and "\<not> (refreshState st = R_READY \<and> \<not> isRefreshing st)"
    and "\<not> (loadMoreState st = L_READY \<and> \<not> isLoadingMore st)"
  shows "velocity (onUp cfg st) =
     (if length (velSamples st) \<ge> 2 \<and> elapsed (recentSamples (velSamples st)) > 1 / 1000
      then clamp (sum_list (map snd (tl (recentSamples (velSamples st))))
                    / elapsed (recentSamples (velSamples st)))
             (- maxVelocity cfg) (maxVelocity cfg)
      else if velSamples st \<noteq> []
      then clamp (snd (last (velSamples st)) * 60) (- maxVelocity cfg) (maxVelocity cfg)
      else 0)"
proof -
  have "velocity (onUp cfg st) = releaseVelocity cfg (velSamples st)"
    using assms
    by (auto simp: onUp_def Let_def updateRefreshState_def updateLoadMoreState_def)
  then show ?thesis
    by (simp only: releaseVelocity_eq)
qed

theorem release_velocity_witness:
  "isTouching stDrag \<and> velocity (onUp cfg0 stDrag) = 1000"
  using release_velocity[of stDrag cfg0]
  by (simp add: stDrag_def st0_def cfg0_def recentSamples_def clamp_def)

text \<open>
  The release of a drag with the two samples \<open>(0, 10)\<close> and \<open>(0.01, 10)\<close>: the code
  divides the second delta alone by the 10 ms between the samples, where the
  specification's wording takes the deltas of both.
\<close>

theorem release_velocity_counterexample:
  "velocity (onUp cfg0 stDrag) = 1000 \<and> specReleaseVelocity cfg0 (velSamples stDrag) = 2000"
  by (simp add: onUp_def Let_def updateRefreshState_def updateLoadMoreState_def
        releaseVelocity_def velLoop.simps specReleaseVelocity_def recentSamples_def
        stDrag_def st0_def cfg0_def clamp_def)

section \<open>The windowing engine leaves the gesture state alone\<close>

lemma gesture_setNode [simp]: "gesture (setNode n f st) = gesture st"
  by (simp add: gesture_def setNode_def)

lemma gesture_render [simp]: "gesture (render cfg n idx st) = gesture st"
  by (simp add: gesture_def render_def setNode_def split: option.splits)

lemma gesture_playAppear [simp]: "gesture (playAppear idx st) = gesture st"
  by (simp add: gesture_def playAppear_def)

lemma gesture_click [simp]: "gesture (updateItemClickHandler cfg n idx st) = gesture st"
  by (simp add: updateItemClickHandler_def)

lemma gesture_deactivate [simp]: "gesture (deactivate node st) = gesture st"
  by (simp add: deactivate_def split: option.splits)

lemma gesture_pool_put [simp]: "gesture (pool_put pools node ty st) = gesture st"
  by (simp add: pool_put_def gesture_def setNode_def split: option.splits)

lemma gesture_pool_get [simp]: "gesture (snd (pool_get cfg pools ty st)) = gesture st"
  by (simp add: pool_get_def gesture_def setNode_def split: option.splits)

lemma gesture_setContentAndBounds [simp]: "gesture (setContentAndBounds cfg acc st) = gesture st"
  by (simp add: setContentAndBounds_def gesture_def Let_def)

lemma gesture_buildPrefixSum [simp]: "gesture (buildPrefixSum cfg st) = gesture st"
  by (simp add: buildPrefixSum_def Let_def) (simp add: gesture_def)

lemma gesture_rebuild: "rebuildPrefixSumFrom cfg i st = Inr st' \<Longrightarrow> gesture st' = gesture st"
  by (auto simp: rebuildPrefixSumFrom_def Let_def split: if_splits option.splits) (simp add: gesture_def)

lemma frames_updateItemHeightWith:
  "frames R \<Longrightarrow> updateItemHeightWith R cfg i ns st = Inr st' \<Longrightarrow> gesture st' = gesture st"
  unfolding updateItemHeightWith_def frames_def
  by (auto simp: Let_def split: if_splits option.splits sum.splits dest!: gesture_rebuild)
     (auto simp: gesture_def)

lemma frames_layoutDynamicNode:
  "frames R \<Longrightarrow> layoutDynamicNode R cfg n idx st = Inr st' \<Longrightarrow> gesture st' = gesture st"
  unfolding layoutDynamicNode_def Let_def
  by (auto split: option.splits if_splits dest!: frames_updateItemHeightWith)

lemma frames_layoutFixedNode:
  "layoutFixedNode cfg n idx st = Inr st' \<Longrightarrow> gesture st' = gesture st"
  unfolding layoutFixedNode_def Let_def
  by (auto split: if_splits)

lemma gesture_slot_update [simp]:
  "gesture (st\<lparr>slotNodes := a, slotPrefabIndices := b\<rparr>) = gesture st"
  "gesture (st\<lparr>slotNodes := a\<rparr>) = gesture st"
  "gesture (st\<lparr>slotPrefabIndices := b\<rparr>) = gesture st"
  "gesture (st\<lparr>slotFirstIndex := c\<rparr>) = gesture st"
  by (simp_all add: gesture_def)

lemma frames_layoutSingleSlotWith:
  assumes "frames R" "layoutSingleSlotWith R cfg node idx slot st = Inr st'"
  shows "gesture st' = gesture st"
proof -
  have get: "\<And>pools ty s n s'. pool_get cfg pools ty s = (n, s') \<Longrightarrow> gesture s' = gesture s"
    by (metis gesture_pool_get snd_conv)
  show ?thesis
    using assms(2) unfolding layoutSingleSlotWith_def Let_def
    by (auto split: option.splits if_splits prod.splits
          dest!: frames_layoutDynamicNode[OF assms(1)] frames_layoutFixedNode get)
qed

lemma frames_bindOrHide:
  assumes "frames R" "bindOrHide R cfg idx slot st = Inr st'"
  shows "gesture st' = gesture st"
  using assms(2) unfolding bindOrHide_def
  by (auto split: if_splits dest!: frames_layoutSingleSlotWith[OF assms(1)])

lemma frames_forEach:
  assumes "\<And>x s s'. body x s = Inr s' \<Longrightarrow> gesture s' = gesture s"
  shows "forEach xs body st = Inr st' \<Longrightarrow> gesture st' = gesture st"
proof (induction xs arbitrary: st)
  case Nil
  then show ?case by simp
next
  case (Cons x xs)
  then show ?case
    by (auto split: sum.splits dest!: assms)
qed

lemma frames_layoutSlotsWith:
  assumes "frames R" "layoutSlotsWith R cfg first st = Inr st'"
  shows "gesture st' = gesture st"
proof (cases "useVirtualList cfg")
  case False
  with assms(2) show ?thesis by (simp add: layoutSlotsWith_def)
next
  case True
  with assms(2) have "forEach [0 ..< slots cfg] (\<lambda>s. bindOrHide R cfg (first + int s) s) st = Inr st'"
    by (simp add: layoutSlotsWith_def)
  then show ?thesis
    by (rule frames_forEach[rotated]) (rule frames_bindOrHide[OF assms(1)])
qed

lemma gesture_rotateWindow [simp]: "gesture (rotateWindow cfg diff newFirst st) = gesture st"
  by (simp add: rotateWindow_def Let_def)

lemma frames_reconcileWith:
  assumes "frames R" "reconcileWith R cfg newFirst force st = Inr st'"
  shows "gesture st' = gesture st"
proof -
  have loop: "\<And>xs f s. forEach xs (\<lambda>i st'. bindOrHide R cfg (slotFirstIndex st' + int (f i)) (f i) st') s = Inr st'
      \<Longrightarrow> gesture st' = gesture s"
    by (erule frames_forEach[rotated]) (rule frames_bindOrHide[OF assms(1)])
  show ?thesis
    using assms(2) unfolding reconcileWith_def Let_def
    by (auto split: if_splits dest!: frames_layoutSlotsWith[OF assms(1)] loop)
qed

lemma frames_updateVisibleWith:
  assumes "frames R" "updateVisibleWith R cfg force st = Inr st'"
  shows "gesture st' = gesture st"
  using assms(2) unfolding updateVisibleWith_def
  by (auto split: if_splits sum.splits dest!: frames_reconcileWith[OF assms(1)])

lemma frames_updateVisible: "frames (updateVisible fuel cfg force)"
proof (induction fuel arbitrary: force)
  case 0
  show ?case by (simp add: frames_def)
next
  case (Suc fuel)
  show ?case
    unfolding frames_def using frames_updateVisibleWith[OF Suc[of True]] by auto
qed

section \<open>Rounding, and the layout of a fixed-size list\<close>

lemma Math_round_of_int [simp]: "Math_round (of_int k) = of_int k"
proof -
  have "\<lfloor>of_int k + (1 / 2 :: real)\<rfloor> = k"
    by (rule floor_unique) simp_all
  then show ?thesis by (simp add: Math_round_def)
qed

lemma Math_round_idem [simp]: "Math_round (Math_round x) = Math_round x"
proof -
  have "Math_round (of_int \<lfloor>x + 1 / 2\<rfloor>) = of_int \<lfloor>x + 1 / 2\<rfloor>"
    by (rule Math_round_of_int)
  then show ?thesis by (simp only: Math_round_def[of x])
qed

lemma align_idem [simp]: "align cfg (align cfg x) = align cfg x"
  by (simp add: align_def)

lemma updateVisible_gesture:
  "updateVisible fuel cfg force st = Inr st' \<Longrightarrow> gesture st' = gesture st"
  using frames_updateVisible[of fuel cfg force] by (simp add: frames_def)

lemma updateRefreshState_fields [simp]:
  "refreshState (updateRefreshState cfg s off st) = s"
  "pullOffset (updateRefreshState cfg s off st) = pullOffset st"
  "contentPos (updateRefreshState cfg s off st) = contentPos st"
  "isLoadingMore (updateRefreshState cfg s off st) = isLoadingMore st"
  "hasMore (updateRefreshState cfg s off st) = hasMore st"
  "boundsMin (updateRefreshState cfg s off st) = boundsMin st"
  "boundsMax (updateRefreshState cfg s off st) = boundsMax st"
  "velSamples (updateRefreshState cfg s off st) = velSamples st"
  by (simp_all add: updateRefreshState_def)

lemma loadMorePull_skip:
  assumes top: "if isVertical cfg then delta < 0 else delta > 0"
  shows "loadMorePull cfg delta pos fd st = Inr (fd, st)"
proof -
  have ng: "\<not> (if isVertical cfg then delta > 0 else delta < 0)"
    using top by (cases "isVertical cfg") auto
  have g: "\<not> (enableLoadMore cfg \<and> \<not> isLoadingMore st \<and> hasMore st \<and>
      (if isVertical cfg then pos \<ge> max (boundsMin st) (boundsMax st)
       else pos \<le> min (boundsMin st) (boundsMax st)) \<and>
      (if isVertical cfg then delta > 0 else delta < 0))"
    using ng by blast
  show ?thesis
    unfolding loadMorePull_def Let_def by (subst if_not_P[OF g]) (rule refl)
qed

lemma forEach_total:
  assumes "\<And>x s. \<exists>s'. body x s = Inr s'"
  shows "\<exists>st'. forEach xs body st = Inr st'"
proof (induction xs arbitrary: st)
  case Nil
  show ?case by simp
next
  case (Cons x xs)
  obtain s' where "body x st = Inr s'" using assms by blast
  then show ?case using Cons.IH[of s'] by simp
qed

lemma fixed_bindOrHide_total:
  assumes "\<not> useDynamicSize cfg" "gridCount cfg \<noteq> 0"
  shows "\<exists>s'. bindOrHide R cfg idx slot s = Inr s'"
  using assms
  by (simp add: bindOrHide_def layoutSingleSlotWith_def layoutFixedNode_def Let_def
        split: option.splits)

lemma fixed_reconcileWith_total:
  assumes "\<not> useDynamicSize cfg" "gridCount cfg \<noteq> 0"
  shows "\<exists>st'. reconcileWith R cfg newFirst force st = Inr st'"
  unfolding reconcileWith_def layoutSlotsWith_def Let_def
  by (auto intro!: forEach_total fixed_bindOrHide_total[OF assms])

lemma fixed_newFirstIndex:
  assumes "\<not> useDynamicSize cfg"
    "itemMainSize cfg + spacing cfg \<noteq> 0 \<or> totalCount cfg < int (slots cfg)"
  shows "\<exists>F. newFirstIndex cfg st = Inr F \<and> 0 \<le> F"
  using assms by (auto simp: newFirstIndex_def firstFixed_def Let_def clamp_def)

lemma fixed_updateVisible_total:
  assumes "\<not> useDynamicSize cfg" "gridCount cfg \<noteq> 0"
    "itemMainSize cfg + spacing cfg \<noteq> 0 \<or> totalCount cfg < int (slots cfg)"
  shows "\<exists>st'. updateVisible (Suc fuel) cfg force st = Inr st'"
proof -
  obtain F where "newFirstIndex cfg st = Inr F"
    using fixed_newFirstIndex[OF assms(1,3)] by blast
  then show ?thesis
    using fixed_reconcileWith_total[OF assms(1,2)] by (simp add: updateVisibleWith_def)
qed

section \<open>The position lookup and the visible range\<close>

lemma sar1_half: "0 \<le> x \<Longrightarrow> x < 2 ^ 31 \<Longrightarrow> sar1 x = x div 2"
proof -
  assume a: "0 \<le> x" "x < 2 ^ 31"
  have "(x + 2 ^ 31) mod 2 ^ 32 = x + 2 ^ 31"
    using a by (intro mod_pos_pos_trivial) auto
  then show ?thesis by (simp add: sar1_def ToInt32_def)
qed

lemma array_get_nth: "0 \<le> i \<Longrightarrow> i < int (length xs) \<Longrightarrow> array_get xs i = Some (xs ! nat i)"
  by (simp add: array_get_def)

lemma bsearch_finds:
  assumes "sorted ps" "length ps < 2 ^ 30"
  shows "0 \<le> l \<Longrightarrow> r < int (length ps) \<Longrightarrow> l \<le> r + 1 \<Longrightarrow> ans = r + 1 \<Longrightarrow>
         (\<forall>i. int i < l \<longrightarrow> ps ! i \<le> pos) \<Longrightarrow>
         (\<forall>i. ans \<le> int i \<and> i < length ps \<longrightarrow> pos < ps ! i) \<Longrightarrow>
         \<exists>k. bsearch ps pos l r ans = Some (int k) \<and> firstAbove ps pos k"
proof (induction "nat (r - l + 1)" arbitrary: l r ans rule: less_induct)
  case less
  show ?case
  proof (cases "l \<le> r")
    case False
    with less.prems have eq: "l = ans" by simp
    have "bsearch ps pos l r ans = Some ans"
      using False by (subst bsearch.simps) simp
    moreover have "firstAbove ps pos (nat ans)"
      using less.prems eq unfolding firstAbove_def by auto
    moreover have "int (nat ans) = ans" using less.prems eq by simp
    ultimately show ?thesis by metis
  next
    case True
    define m where "m = (l + r) div 2"
    have lr: "0 \<le> l + r" "l + r < 2 ^ 31"
      using less.prems True assms(2) by auto
    have sm: "sar1 (l + r) = m" unfolding m_def by (rule sar1_half[OF lr])
    have mb: "l \<le> m" "m \<le> r" using True unfolding m_def by auto
    have mi: "0 \<le> m" "m < int (length ps)" using mb less.prems by auto
    have get: "array_get ps m = Some (ps ! nat m)" by (rule array_get_nth[OF mi])
    show ?thesis
    proof (cases "ps ! nat m > pos")
      case gt: True
      have step: "bsearch ps pos l r ans = bsearch ps pos l (m - 1) m"
        using True gt by (subst bsearch.simps) (simp add: sm get)
      have up: "\<forall>i. m \<le> int i \<and> i < length ps \<longrightarrow> pos < ps ! i"
      proof (intro allI impI)
        fix i assume "m \<le> int i \<and> i < length ps"
        then have "ps ! nat m \<le> ps ! i"
          using assms(1) mi by (intro sorted_nth_mono) auto
        with gt show "pos < ps ! i" by simp
      qed
      have "\<exists>k. bsearch ps pos l (m - 1) m = Some (int k) \<and> firstAbove ps pos k"
        using mb mi less.prems up
        by (intro less.hyps) auto
      then show ?thesis by (simp add: step)
    next
      case le: False
      have step: "bsearch ps pos l r ans = bsearch ps pos (m + 1) r ans"
        using True le by (subst bsearch.simps) (simp add: sm get)
      have lo: "\<forall>i. int i < m + 1 \<longrightarrow> ps ! i \<le> pos"
      proof (intro allI impI)
        fix i assume "int i < m + 1"
        then have "ps ! i \<le> ps ! nat m"
          using assms(1) mi by (intro sorted_nth_mono) auto
        with le show "ps ! i \<le> pos" by simp
      qed
      have "\<exists>k. bsearch ps pos (m + 1) r ans = Some (int k) \<and> firstAbove ps pos k"
        using mb mi less.prems lo
        by (intro less.hyps) auto
      then show ?thesis by (simp add: step)
    qed
  qed
qed

lemma firstAbove_unique: "firstAbove ps pos k \<Longrightarrow> firstAbove ps pos k' \<Longrightarrow> k = k'"
  unfolding firstAbove_def
  by (metis leD le_less_linear less_le_trans nat_less_le)

lemma posToFirstIndex_finds:
  assumes "sorted ps" "length ps < 2 ^ 30" "0 < pos"
  shows "\<exists>k. firstAbove ps pos k \<and> posToFirstIndex ps pos = Some (max 0 (int k - 1))"
proof -
  have "\<exists>k. bsearch ps pos 0 (int (length ps) - 1) (int (length ps)) = Some (int k) \<and>
      firstAbove ps pos k"
    by (rule bsearch_finds[OF assms(1,2)]) auto
  then show ?thesis
    using assms(3) by (auto simp: posToFirstIndex_def)
qed


lemma prefixLoop_length [simp]: "length (fst (prefixLoop sp acc xs)) = length xs"
  by (induction xs arbitrary: acc) (simp_all add: Let_def)

lemma prefixLoop_nth:
  "i < length xs \<Longrightarrow>
   fst (prefixLoop sp acc xs) ! i = acc + sum_list (map (\<lambda>x. x + sp) (take i xs))"
proof (induction xs arbitrary: acc i)
  case Nil
  then show ?case by simp
next
  case (Cons x xs)
  show ?case
  proof (cases i)
    case 0
    then show ?thesis by (simp add: Let_def)
  next
    case (Suc j)
    with Cons.prems have "j < length xs" by simp
    from Cons.IH[OF this, of "acc + (x + sp)"] Suc show ?thesis
      by (simp add: Let_def add.assoc)
  qed
qed

lemma prefixLoop_Suc:
  assumes "Suc i < length xs"
  shows "fst (prefixLoop sp acc xs) ! Suc i = fst (prefixLoop sp acc xs) ! i + (xs ! i + sp)"
proof -
  have "take (Suc i) xs = take i xs @ [xs ! i]"
    using assms by (simp add: take_Suc_conv_app_nth)
  then show ?thesis
    using assms by (simp add: prefixLoop_nth)
qed

lemma prefixLoop_sorted:
  assumes "\<forall>x\<in>set xs. 0 \<le> x + sp"
  shows "sorted (fst (prefixLoop sp acc xs))"
proof -
  have step: "\<And>i. Suc i < length xs \<Longrightarrow>
      fst (prefixLoop sp acc xs) ! i \<le> fst (prefixLoop sp acc xs) ! Suc i"
  proof -
    fix i assume a: "Suc i < length xs"
    then have "xs ! i \<in> set xs" by simp
    with assms have "0 \<le> xs ! i + sp" by blast
    then show "fst (prefixLoop sp acc xs) ! i \<le> fst (prefixLoop sp acc xs) ! Suc i"
      by (simp add: prefixLoop_Suc[OF a])
  qed
  show ?thesis
    by (rule iffD2[OF sorted_iff_nth_Suc]) (simp add: step)
qed

lemma prefixLoop_first: "xs \<noteq> [] \<Longrightarrow> fst (prefixLoop sp acc xs) ! 0 = acc"
  by (cases xs) (simp_all add: Let_def)

lemma prefixPositions_build:
  "prefixPositions (buildPrefixSum cfg st) = fst (prefixLoop (spacing cfg) 0 (itemSizes st))"
  by (simp add: buildPrefixSum_def setContentAndBounds_def Let_def)


lemma locate_greatest:
  assumes "sorted ps" "length ps < 2 ^ 30" "0 < pos" "ps \<noteq> []" "ps ! 0 \<le> pos"
  shows "\<exists>i<length ps. posToFirstIndex ps pos = Some (int i) \<and> ps ! i \<le> pos \<and>
           (\<forall>j<length ps. ps ! j \<le> pos \<longrightarrow> j \<le> i)"
proof -
  obtain k where k: "firstAbove ps pos k" "posToFirstIndex ps pos = Some (max 0 (int k - 1))"
    using posToFirstIndex_finds[OF assms(1-3)] by blast
  have k0: "k \<noteq> 0"
  proof
    assume "k = 0"
    with k(1) assms(4) have "pos < ps ! 0" unfolding firstAbove_def by simp
    with assms(5) show False by simp
  qed
  then have r: "posToFirstIndex ps pos = Some (int (k - 1))"
    using k(2) by (simp add: of_nat_diff)
  have "k - 1 < length ps" "ps ! (k - 1) \<le> pos"
    using k(1) k0 unfolding firstAbove_def by auto
  moreover have "\<forall>j<length ps. ps ! j \<le> pos \<longrightarrow> j \<le> k - 1"
  proof (intro allI impI)
    fix j assume "j < length ps" "ps ! j \<le> pos"
    with k(1) have "j < k" unfolding firstAbove_def by (meson leD leI)
    then show "j \<le> k - 1" by simp
  qed
  ultimately show ?thesis using r by blast
qed

lemma locate_at:
  assumes "sorted ps" "length ps < 2 ^ 30" "0 < pos" "firstAbove ps pos (Suc i)"
  shows "posToFirstIndex ps pos = Some (int i)"
proof -
  obtain k where k: "firstAbove ps pos k" "posToFirstIndex ps pos = Some (max 0 (int k - 1))"
    using posToFirstIndex_finds[OF assms(1-3)] by blast
  have "k = Suc i" by (rule firstAbove_unique[OF k(1) assms(4)])
  with k(2) show ?thesis by simp
qed

text \<open>
  C1, as amended. For the table \<open>_buildPrefixSum\<close> stores for a size sequence of fewer
  than \<open>2^30\<close> items whose strides \<open>size[k] + spacing\<close> are not negative:
  \<open>_posToFirstIndex\<close> returns 0 for every position \<open>\<le> 0\<close>; for a positive position
  and a table that is not empty it returns the greatest index whose start is \<open>\<le>\<close> the
  position; and for every \<open>i > 0\<close> such that the stride of item \<open>i - 1\<close> is positive
  and, unless \<open>i\<close> is the last item, that of item \<open>i\<close> too, it returns \<open>i\<close> at
  \<open>start[i]\<close> and \<open>i - 1\<close> at \<open>start[i] - eps\<close> for every \<open>eps\<close> between 0 and the
  stride of item \<open>i - 1\<close>.
\<close>

theorem posToFirstIndex_locates:
  assumes nonneg: "\<forall>x\<in>set (itemSizes st). 0 \<le> x + spacing cfg"
    and small: "length (itemSizes st) < 2 ^ 30"
  shows "(\<forall>pos. pos \<le> 0 \<longrightarrow> posToFirstIndex (prefixPositions (buildPrefixSum cfg st)) pos = Some 0) \<and>
    (\<forall>pos. 0 < pos \<and> itemSizes st \<noteq> [] \<longrightarrow>
       (\<exists>i<length (itemSizes st).
          posToFirstIndex (prefixPositions (buildPrefixSum cfg st)) pos = Some (int i) \<and>
          prefixPositions (buildPrefixSum cfg st) ! i \<le> pos \<and>
          (\<forall>j<length (itemSizes st).
             prefixPositions (buildPrefixSum cfg st) ! j \<le> pos \<longrightarrow> j \<le> i))) \<and>
    (\<forall>i. 0 < i \<and> i < length (itemSizes st) \<and> 0 < itemSizes st ! (i - 1) + spacing cfg \<and>
         (i + 1 < length (itemSizes st) \<longrightarrow> 0 < itemSizes st ! i + spacing cfg) \<longrightarrow>
       posToFirstIndex (prefixPositions (buildPrefixSum cfg st))
         (prefixPositions (buildPrefixSum cfg st) ! i) = Some (int i) \<and>
       (\<forall>eps. 0 < eps \<and> eps < itemSizes st ! (i - 1) + spacing cfg \<longrightarrow>
          posToFirstIndex (prefixPositions (buildPrefixSum cfg st))
            (prefixPositions (buildPrefixSum cfg st) ! i - eps) = Some (int i - 1)))"
proof -
  define ps where "ps = prefixPositions (buildPrefixSum cfg st)"
  have ps: "ps = fst (prefixLoop (spacing cfg) 0 (itemSizes st))"
    unfolding ps_def by (rule prefixPositions_build)
  have len: "length ps = length (itemSizes st)" unfolding ps by simp
  have srt: "sorted ps" unfolding ps by (rule prefixLoop_sorted[OF nonneg])
  have sm: "length ps < 2 ^ 30" using small len by simp
  have first: "itemSizes st \<noteq> [] \<Longrightarrow> ps ! 0 = 0"
    unfolding ps by (rule prefixLoop_first)
  have suc: "\<And>i. Suc i < length ps \<Longrightarrow> ps ! Suc i = ps ! i + (itemSizes st ! i + spacing cfg)"
    unfolding ps by (rule prefixLoop_Suc) simp
  have mono: "\<And>i j. i \<le> j \<Longrightarrow> j < length ps \<Longrightarrow> ps ! i \<le> ps ! j"
    using srt by (rule sorted_nth_mono)
  have A: "\<forall>pos. pos \<le> 0 \<longrightarrow> posToFirstIndex ps pos = Some 0"
    by (simp add: posToFirstIndex_def)
  have B: "\<forall>pos. 0 < pos \<and> itemSizes st \<noteq> [] \<longrightarrow>
       (\<exists>i<length (itemSizes st). posToFirstIndex ps pos = Some (int i) \<and> ps ! i \<le> pos \<and>
          (\<forall>j<length (itemSizes st). ps ! j \<le> pos \<longrightarrow> j \<le> i))"
  proof (intro allI impI)
    fix pos :: real assume a: "0 < pos \<and> itemSizes st \<noteq> []"
    then have "ps \<noteq> []" "ps ! 0 \<le> pos" using first len by auto
    from locate_greatest[OF srt sm _ this] a
    show "\<exists>i<length (itemSizes st). posToFirstIndex ps pos = Some (int i) \<and> ps ! i \<le> pos \<and>
          (\<forall>j<length (itemSizes st). ps ! j \<le> pos \<longrightarrow> j \<le> i)"
      by (simp add: len)
  qed
  have C: "\<forall>i. 0 < i \<and> i < length (itemSizes st) \<and> 0 < itemSizes st ! (i - 1) + spacing cfg \<and>
         (i + 1 < length (itemSizes st) \<longrightarrow> 0 < itemSizes st ! i + spacing cfg) \<longrightarrow>
       posToFirstIndex ps (ps ! i) = Some (int i) \<and>
       (\<forall>eps. 0 < eps \<and> eps < itemSizes st ! (i - 1) + spacing cfg \<longrightarrow>
          posToFirstIndex ps (ps ! i - eps) = Some (int i - 1))"
  proof (intro allI impI)
    fix i
    assume a: "0 < i \<and> i < length (itemSizes st) \<and> 0 < itemSizes st ! (i - 1) + spacing cfg \<and>
         (i + 1 < length (itemSizes st) \<longrightarrow> 0 < itemSizes st ! i + spacing cfg)"
    then obtain j where j: "i = Suc j" by (cases i) auto
    have il: "Suc j < length ps" using a j len by simp
    have gap: "ps ! Suc j = ps ! j + (itemSizes st ! j + spacing cfg)" by (rule suc[OF il])
    have stride: "0 < itemSizes st ! j + spacing cfg" using a j by simp
    have ne: "itemSizes st \<noteq> []" using a by auto
    have p0: "0 \<le> ps ! j" using mono[of 0 j] il first[OF ne] by simp
    have pi: "0 < ps ! Suc j" using gap stride p0 by simp
    have fa1: "firstAbove ps (ps ! Suc j) (Suc (Suc j))"
      unfolding firstAbove_def
    proof (intro conjI allI impI)
      show "Suc (Suc j) \<le> length ps" using il by simp
    next
      fix q assume "q < Suc (Suc j)"
      then show "ps ! q \<le> ps ! Suc j" using mono[of q "Suc j"] il by simp
    next
      fix q assume q: "Suc (Suc j) \<le> q \<and> q < length ps"
      then have "Suc (Suc j) < length ps" by simp
      then have "ps ! Suc (Suc j) = ps ! Suc j + (itemSizes st ! Suc j + spacing cfg)"
        "0 < itemSizes st ! Suc j + spacing cfg"
        using suc[of "Suc j"] a j len by simp_all
      then have "ps ! Suc j < ps ! Suc (Suc j)" by simp
      also have "\<dots> \<le> ps ! q" using mono[of "Suc (Suc j)" q] q by simp
      finally show "ps ! Suc j < ps ! q" .
    qed
    have r1: "posToFirstIndex ps (ps ! i) = Some (int i)"
      unfolding j by (rule locate_at[OF srt sm pi fa1])
    have r2: "\<forall>eps. 0 < eps \<and> eps < itemSizes st ! (i - 1) + spacing cfg \<longrightarrow>
          posToFirstIndex ps (ps ! i - eps) = Some (int i - 1)"
    proof (intro allI impI)
      fix eps :: real assume e: "0 < eps \<and> eps < itemSizes st ! (i - 1) + spacing cfg"
      then have lo: "ps ! j < ps ! Suc j - eps" and hi: "ps ! Suc j - eps < ps ! Suc j"
        using gap j by simp_all
      have pos: "0 < ps ! Suc j - eps" using lo p0 by simp
      have fa2: "firstAbove ps (ps ! Suc j - eps) (Suc j)"
        unfolding firstAbove_def
      proof (intro conjI allI impI)
        show "Suc j \<le> length ps" using il by simp
      next
        fix q assume "q < Suc j"
        then have "ps ! q \<le> ps ! j" using mono[of q j] il by simp
        with lo show "ps ! q \<le> ps ! Suc j - eps" by simp
      next
        fix q assume "Suc j \<le> q \<and> q < length ps"
        then have "ps ! Suc j \<le> ps ! q" using mono[of "Suc j" q] by simp
        with hi show "ps ! Suc j - eps < ps ! q" by simp
      qed
      have "posToFirstIndex ps (ps ! Suc j - eps) = Some (int j)"
        by (rule locate_at[OF srt sm pos fa2])
      then show "posToFirstIndex ps (ps ! i - eps) = Some (int i - 1)"
        unfolding j by simp
    qed
    show "posToFirstIndex ps (ps ! i) = Some (int i) \<and>
       (\<forall>eps. 0 < eps \<and> eps < itemSizes st ! (i - 1) + spacing cfg \<longrightarrow>
          posToFirstIndex ps (ps ! i - eps) = Some (int i - 1))"
      using r1 r2 by (rule conjI)
  qed
  show ?thesis
    using A B C unfolding ps_def by (intro conjI)
qed


lemma scanEnd_finds:
  "0 \<le> e0 \<Longrightarrow> e0 \<le> int (length ps) \<Longrightarrow>
   e0 \<le> scanEnd ps endPos e0 \<and> scanEnd ps endPos e0 \<le> int (length ps) \<and>
   (scanEnd ps endPos e0 < int (length ps) \<longrightarrow> endPos \<le> ps ! nat (scanEnd ps endPos e0)) \<and>
   (\<forall>j. e0 \<le> int j \<and> int j < scanEnd ps endPos e0 \<longrightarrow> ps ! j < endPos)"
proof (induction ps endPos e0 rule: scanEnd.induct)
  case (1 ps endPos e)
  show ?case
  proof (cases "e < int (length ps)")
    case False
    then have "scanEnd ps endPos e = e" by (subst scanEnd.simps) simp
    then show ?thesis using "1.prems" False by simp
  next
    case True
    have get: "array_get ps e = Some (ps ! nat e)"
      using True "1.prems" by (simp add: array_get_def)
    show ?thesis
    proof (cases "endPos \<le> ps ! nat e")
      case hit: True
      have "scanEnd ps endPos e = e"
        using True hit by (subst scanEnd.simps) (simp add: get)
      then show ?thesis using "1.prems" hit by simp
    next
      case miss: False
      have step: "scanEnd ps endPos e = scanEnd ps endPos (e + 1)"
        using True miss by (subst scanEnd.simps) (simp add: get)
      have ih: "e + 1 \<le> scanEnd ps endPos (e + 1) \<and> scanEnd ps endPos (e + 1) \<le> int (length ps) \<and>
          (scanEnd ps endPos (e + 1) < int (length ps) \<longrightarrow>
             endPos \<le> ps ! nat (scanEnd ps endPos (e + 1))) \<and>
          (\<forall>j. e + 1 \<le> int j \<and> int j < scanEnd ps endPos (e + 1) \<longrightarrow> ps ! j < endPos)"
        using "1.IH"[OF True _ _ _] True miss get "1.prems" by simp
      have "\<forall>j. e \<le> int j \<and> int j < scanEnd ps endPos (e + 1) \<longrightarrow> ps ! j < endPos"
      proof (intro allI impI)
        fix j assume a: "e \<le> int j \<and> int j < scanEnd ps endPos (e + 1)"
        show "ps ! j < endPos"
        proof (cases "int j = e")
          case True
          then have "nat e = j" by simp
          with miss show ?thesis by simp
        next
          case False
          with a ih show ?thesis by simp
        qed
      qed
      with ih show ?thesis unfolding step by simp
    qed
  qed
qed

text \<open>
  C2, as amended. For a table as in C1 that is not empty, a position \<open>\<ge> 0\<close> and a
  buffer \<open>\<ge> 0\<close>, \<open>_calcVisibleRange\<close> returns a range \<open>[s, e)\<close> within the table
  that contains every index \<open>i\<close> with \<open>start[i] < position + viewportSize\<close> and
  \<open>position < start[i] + size[i] + spacing\<close>. With a spacing that is not negative
  these are at least the items whose span shares more than a boundary point with the
  viewport.
\<close>

theorem calcVisibleRange_covers:
  assumes nonneg: "\<forall>x\<in>set (itemSizes st). 0 \<le> x + spacing cfg"
    and small: "length (itemSizes st) < 2 ^ 30"
    and ne: "itemSizes st \<noteq> []" and pos: "0 \<le> pos" and buf: "0 \<le> buffer cfg"
  shows "\<exists>s e. calcVisibleRange cfg (prefixPositions (buildPrefixSum cfg st)) pos = Some (s, e) \<and>
           0 \<le> s \<and> e \<le> int (length (itemSizes st)) \<and>
           (\<forall>i<length (itemSizes st).
              prefixPositions (buildPrefixSum cfg st) ! i < pos + viewportSize cfg \<and>
              pos < prefixPositions (buildPrefixSum cfg st) ! i + itemSizes st ! i + spacing cfg
              \<longrightarrow> s \<le> int i \<and> int i < e)"
proof -
  define ps where "ps = prefixPositions (buildPrefixSum cfg st)"
  have ps: "ps = fst (prefixLoop (spacing cfg) 0 (itemSizes st))"
    unfolding ps_def by (rule prefixPositions_build)
  have len: "length ps = length (itemSizes st)" unfolding ps by simp
  have srt: "sorted ps" unfolding ps by (rule prefixLoop_sorted[OF nonneg])
  have sm: "length ps < 2 ^ 30" using small len by simp
  have first: "ps ! 0 = 0" unfolding ps by (rule prefixLoop_first[OF ne])
  have pne: "ps \<noteq> []" using ne len by auto
  have suc: "\<And>i. Suc i < length ps \<Longrightarrow> ps ! Suc i = ps ! i + (itemSizes st ! i + spacing cfg)"
    unfolding ps by (rule prefixLoop_Suc) simp
  have mono: "\<And>i j. i \<le> j \<Longrightarrow> j < length ps \<Longrightarrow> ps ! i \<le> ps ! j"
    using srt by (rule sorted_nth_mono)
  have "\<exists>k<length ps. posToFirstIndex ps pos = Some (int k) \<and>
          (\<forall>i. Suc i < length ps \<and> i < k \<longrightarrow> ps ! Suc i \<le> pos)"
  proof (cases "pos \<le> 0")
    case True
    then have "posToFirstIndex ps pos = Some (int 0)" by (simp add: posToFirstIndex_def)
    then show ?thesis using pne by auto
  next
    case False
    then have "0 < pos" "ps ! 0 \<le> pos" using first by simp_all
    from locate_greatest[OF srt sm this(1) pne this(2)]
    obtain k where k: "k < length ps" "posToFirstIndex ps pos = Some (int k)" "ps ! k \<le> pos"
      by blast
    have "\<forall>i. Suc i < length ps \<and> i < k \<longrightarrow> ps ! Suc i \<le> pos"
    proof (intro allI impI)
      fix i assume "Suc i < length ps \<and> i < k"
      then have "ps ! Suc i \<le> ps ! k" using mono[of "Suc i" k] k(1) by simp
      with k(3) show "ps ! Suc i \<le> pos" by simp
    qed
    with k show ?thesis by blast
  qed
  then obtain k where k: "k < length ps" "posToFirstIndex ps pos = Some (int k)"
    "\<forall>i. Suc i < length ps \<and> i < k \<longrightarrow> ps ! Suc i \<le> pos" by blast
  define e where "e = scanEnd ps (pos + viewportSize cfg) (int k)"
  have sc: "int k \<le> e \<and> e \<le> int (length ps) \<and>
      (e < int (length ps) \<longrightarrow> pos + viewportSize cfg \<le> ps ! nat e) \<and>
      (\<forall>j. int k \<le> int j \<and> int j < e \<longrightarrow> ps ! j < pos + viewportSize cfg)"
    unfolding e_def using scanEnd_finds[of "int k" ps "pos + viewportSize cfg"] k(1) by simp
  have res: "calcVisibleRange cfg ps pos =
      Some (max 0 (int k - buffer cfg), min (int (length ps)) (e + buffer cfg))"
    using pne k(2) by (simp add: calcVisibleRange_def Let_def e_def)
  have cover: "\<forall>i<length (itemSizes st).
              ps ! i < pos + viewportSize cfg \<and> pos < ps ! i + itemSizes st ! i + spacing cfg
              \<longrightarrow> max 0 (int k - buffer cfg) \<le> int i \<and> int i < min (int (length ps)) (e + buffer cfg)"
  proof (intro allI impI)
    fix i assume il: "i < length (itemSizes st)"
      and a: "ps ! i < pos + viewportSize cfg \<and> pos < ps ! i + itemSizes st ! i + spacing cfg"
    have ki: "k \<le> i"
    proof (rule ccontr)
      assume "\<not> k \<le> i"
      then have ik: "i < k" by simp
      then have si: "Suc i < length ps" using k(1) by simp
      from k(3) si ik have "ps ! Suc i \<le> pos" by blast
      with suc[OF si] a show False by simp
    qed
    have ie: "int i < e"
    proof (rule ccontr)
      assume "\<not> int i < e"
      then have ei: "e \<le> int i" by simp
      then have el: "e < int (length ps)" using il len by simp
      with sc have "pos + viewportSize cfg \<le> ps ! nat e" by blast
      also have "ps ! nat e \<le> ps ! i" using mono[of "nat e" i] ei il len sc by simp
      finally show False using a by simp
    qed
    show "max 0 (int k - buffer cfg) \<le> int i \<and> int i < min (int (length ps)) (e + buffer cfg)"
      using ki ie il len buf by simp
  qed
  have "0 \<le> max 0 (int k - buffer cfg)" "min (int (length ps)) (e + buffer cfg) \<le> int (length (itemSizes st))"
    using len by simp_all
  with res cover show ?thesis unfolding ps_def by blast
qed

lemma sar1_numeral [simp]: "sar1 0 = 0" "sar1 1 = 0" "sar1 2 = 1" "sar1 3 = 1" "sar1 4 = 2"
  by (simp_all add: sar1_def ToInt32_def)

lemma psC: "prefixPositions (buildPrefixSum cfgC stC) = [0, 50, 100]"
  by (simp add: prefixPositions_build cfgC_def stC_def st0_def cfg0_def Let_def)

lemma psZ: "prefixPositions (buildPrefixSum cfgC stZ) = [0, 50, 50]"
  by (simp add: prefixPositions_build cfgC_def stZ_def st0_def cfg0_def Let_def)


lemma bsearch_done: "r < l \<Longrightarrow> bsearch ps pos l r ans = Some ans"
  by (subst bsearch.simps) simp

lemma bsearch_left:
  "l \<le> r \<Longrightarrow> (case array_get ps (sar1 (l + r)) of Some v \<Rightarrow> v > pos | None \<Rightarrow> False) \<Longrightarrow>
   bsearch ps pos l r ans = bsearch ps pos l (sar1 (l + r) - 1) (sar1 (l + r))"
  by (subst bsearch.simps) simp

lemma bsearch_right:
  "l \<le> r \<Longrightarrow> \<not> (case array_get ps (sar1 (l + r)) of Some v \<Rightarrow> v > pos | None \<Rightarrow> False) \<Longrightarrow>
   bsearch ps pos l r ans = bsearch ps pos (sar1 (l + r) + 1) r ans"
  by (subst bsearch.simps) simp

lemma scanEnd_done: "int (length ps) \<le> e \<Longrightarrow> scanEnd ps endPos e = e"
  by (subst scanEnd.simps) simp

lemma scanEnd_hit:
  "e < int (length ps) \<Longrightarrow> (case array_get ps e of Some v \<Rightarrow> v \<ge> endPos | None \<Rightarrow> False) \<Longrightarrow>
   scanEnd ps endPos e = e"
  by (subst scanEnd.simps) simp

lemma scanEnd_miss:
  "e < int (length ps) \<Longrightarrow> \<not> (case array_get ps e of Some v \<Rightarrow> v \<ge> endPos | None \<Rightarrow> False) \<Longrightarrow>
   scanEnd ps endPos e = scanEnd ps endPos (e + 1)"
  by (subst scanEnd.simps) simp

lemmas search_eval = bsearch_done bsearch_left bsearch_right scanEnd_done scanEnd_hit scanEnd_miss
  array_get_def posToFirstIndex_def calcVisibleRange_def

text \<open>
  The sizes 50, 0, 50 without spacing give the starts 0, 50, 50: at \<open>start[1] = 50\<close>
  the lookup returns 2, the greatest index whose start is 50, not 1.
\<close>

theorem posToFirstIndex_locates_counterexample:
  "prefixPositions (buildPrefixSum cfgC stZ) = [0, 50, 50] \<and>
   posToFirstIndex (prefixPositions (buildPrefixSum cfgC stZ))
     (prefixPositions (buildPrefixSum cfgC stZ) ! 1) = Some 2"
  by (simp add: psZ search_eval)

theorem posToFirstIndex_locates_witness:
  "prefixPositions (buildPrefixSum cfgC stC) = [0, 50, 100] \<and>
   posToFirstIndex [0, 50, 100] 0 = Some 0 \<and>
   posToFirstIndex [0, 50, 100] 100 = Some 2 \<and>
   posToFirstIndex [0, 50, 100] 99 = Some 1"
proof -
  have h: "\<forall>x\<in>set (itemSizes stC). 0 \<le> x + spacing cfgC" "length (itemSizes stC) < 2 ^ 30"
    by (simp_all add: stC_def cfgC_def st0_def cfg0_def)
  note T = posToFirstIndex_locates[OF h]
  have a: "posToFirstIndex [0, 50, 100] 0 = Some 0"
    using T[THEN conjunct1, THEN spec, of 0] by (simp add: psC)
  have i2: "0 < (2::nat) \<and> 2 < length (itemSizes stC) \<and> 0 < itemSizes stC ! (2 - 1) + spacing cfgC \<and>
         (2 + 1 < length (itemSizes stC) \<longrightarrow> 0 < itemSizes stC ! 2 + spacing cfgC)"
    by (simp add: stC_def cfgC_def st0_def cfg0_def)
  note C = T[THEN conjunct2, THEN conjunct2, THEN spec, of 2, THEN mp, OF i2]
  have b: "posToFirstIndex [0, 50, 100] 100 = Some 2"
    using C[THEN conjunct1] by (simp add: psC)
  have e1: "0 < (1::real) \<and> 1 < itemSizes stC ! (2 - 1) + spacing cfgC"
    by (simp add: stC_def cfgC_def st0_def cfg0_def)
  have c: "posToFirstIndex [0, 50, 100] 99 = Some 1"
    using C[THEN conjunct2, THEN spec, of 1, THEN mp, OF e1] by (simp add: psC)
  show ?thesis using a b c psC by simp
qed

text \<open>
  Three items of size 50 in a viewport of 100 at position 0 (within the bounds 0 to 50):
  the range is \<open>[0, 2)\<close>, and the span \<open>[100, 150]\<close> of item 2 meets the viewport
  \<open>[0, 100]\<close> in the point 100.
\<close>

theorem calcVisibleRange_covers_counterexample:
  "calcVisibleRange cfgW (prefixPositions (buildPrefixSum cfgW stC)) 0 = Some (0, 2) \<and>
   spanIntersects (prefixPositions (buildPrefixSum cfgW stC)) (itemSizes stC) 2 0 (viewportSize cfgW) \<and>
   boundsMin (buildPrefixSum cfgW stC) \<le> 0 \<and> 0 \<le> boundsMax (buildPrefixSum cfgW stC) \<and>
   0 \<le> buffer cfgW"
proof -
  have ps: "prefixPositions (buildPrefixSum cfgW stC) = [0, 50, 100]"
    by (simp add: prefixPositions_build cfgW_def cfgC_def stC_def st0_def cfg0_def Let_def)
  have b: "boundsMin (buildPrefixSum cfgW stC) = 0" "boundsMax (buildPrefixSum cfgW stC) = 50"
    by (simp_all add: buildPrefixSum_def setContentAndBounds_def isVertical_def cfgW_def cfgC_def
          stC_def st0_def cfg0_def Let_def)
  have v: "viewportSize cfgW = 100" "buffer cfgW = 0" "itemSizes stC = [50, 50, 50]"
    by (simp_all add: cfgW_def cfgC_def stC_def st0_def cfg0_def)
  show ?thesis
    unfolding ps b v by (simp add: search_eval v spanIntersects_def)
qed

theorem calcVisibleRange_covers_witness:
  "calcVisibleRange cfgC [0, 50, 100] 0 = Some (0, 2) \<and>
   (\<exists>s e. calcVisibleRange cfgC [0, 50, 100] 0 = Some (s, e) \<and> s \<le> 1 \<and> 1 < e)"
proof -
  have h: "\<forall>x\<in>set (itemSizes stC). 0 \<le> x + spacing cfgC" "length (itemSizes stC) < 2 ^ 30"
    "itemSizes stC \<noteq> []" "0 \<le> (0::real)" "0 \<le> buffer cfgC"
    by (simp_all add: stC_def cfgC_def st0_def cfg0_def)
  from calcVisibleRange_covers[OF h]
  obtain s e where se: "calcVisibleRange cfgC [0, 50, 100] 0 = Some (s, e)"
    and cov: "\<forall>i<length (itemSizes stC).
              [0, 50, 100] ! i < 0 + viewportSize cfgC \<and>
              0 < [0, 50, 100] ! i + itemSizes stC ! i + spacing cfgC
              \<longrightarrow> s \<le> int i \<and> int i < e"
    unfolding psC by blast
  have "1 < length (itemSizes stC) \<and> ([0, 50, 100] ! 1 :: real) < 0 + viewportSize cfgC \<and>
      0 < [0, 50, 100] ! 1 + itemSizes stC ! 1 + spacing cfgC"
    by (simp add: stC_def cfgC_def st0_def cfg0_def)
  with cov have "s \<le> int 1 \<and> int 1 < e" by blast
  with se have ex: "\<exists>s e. calcVisibleRange cfgC [0, 50, 100] 0 = Some (s, e) \<and> s \<le> 1 \<and> 1 < e"
    by simp
  have v: "viewportSize cfgC = 80" "buffer cfgC = 0"
    by (simp_all add: cfgC_def cfg0_def)
  have "calcVisibleRange cfgC [0, 50, 100] 0 = Some (0, 2)"
    by (simp add: search_eval v)
  with ex show ?thesis by simp
qed

section \<open>Evaluating the engine on the examples\<close>

lemmas layout_eval = updateVisibleWith_def newFirstIndex_def firstFixed_def reconcileWith_def rotateWindow_def layoutSlotsWith_def
  bindOrHide_def
  layoutSingleSlotWith_def layoutDynamicNode_def layoutFixedNode_def updateItemHeightWith_def
  rebuildPrefixSumFrom_def buildPrefixSum_def setContentAndBounds_def
  pool_get_def pool_put_def setNode_def deactivate_def slotNode_def render_def playAppear_def
  updateItemClickHandler_def moveSlots_def splice_def array_set_def align_def clamp_def
  isVertical_def getNodeMainSize_def freshNode_def Let_def upt_rec layoutSlots_def

lemma stP_val: "stP = st0\<lparr>itemSizes := [50, 50, 50, 50], slotNodes := [None, None],
          slotPrefabIndices := [Some (- 1), Some (- 1)],
          nodePool := Some (\<lambda>ty. if ty = 0 \<or> ty = 1 then Some [] else None),
          nextNode := 0, prefixPositions := [0, 50, 100, 150], contentSize := 200,
          contentMainSize := 200, boundsMin := 0, boundsMax := 100\<rparr>"
  by (simp add: stP_def cfgP_def cfg0_def st0_def layout_eval)


lemmas gesture_eval = onMove_def onDown_def refreshPull_def loadMorePull_def ratioMin_def
  setContentMainPos_def updateRefreshState_def updateLoadMoreState_def

lemma Math_round_numeral [simp]: "Math_round (numeral k) = numeral k" "Math_round (- numeral k) = - numeral k"
  using Math_round_of_int[of "numeral k"] Math_round_of_int[of "- numeral k"] by simp_all


lemma updateVisible_numeral:
  "updateVisible (numeral k) cfg force st =
     updateVisibleWith (updateVisible (pred_numeral k) cfg True) cfg force st"
  by (simp add: numeral_eq_Suc)

section \<open>A node held twice\<close>

text \<open>
  C4. The first layout binds node 0 (type 0) to slot 0 and node 1 (type 1) to slot 1.
  A drag by 50 moves the window to item 1: slot 1, which now holds node 0, is laid out
  for item 2, whose type 5 has no pool. \<open>_layoutSingleSlot\<close> has put node 0 into the
  pool of type 0 before \<open>get\<close> fails, and returns with the slot still holding the
  node: node 0 is idle in a pool and held by a slot. A second drag by 50 lays slot 1 out
  for item 3 of type 0, and \<open>get\<close> pops node 0 from the pool: both slots hold node 0.
\<close>

theorem node_shared_after_unknown_type:
  "\<exists>s1 s2 s3.
     layoutSlots 1 cfgP 0 stP = Inr s1 \<and> slotNodes s1 = [Some 0, Some 1] \<and>
     onMove 1 cfgP 50 0 (onDown s1) = Inr s2 \<and>
     slotFirstIndex s2 = 1 \<and> slotNodes s2 = [Some 1, Some 0] \<and>
     Option.bind (nodePool s2) (\<lambda>pools. pools 0) = Some [0] \<and>
     onMove 1 cfgP 50 (1 / 100) s2 = Inr s3 \<and>
     slotFirstIndex s3 = 2 \<and> slotNodes s3 = [Some 0, Some 0]"
  unfolding stP_val
  by (simp add: cfgP_def cfg0_def st0_def layout_eval search_eval gesture_eval sar1_def ToInt32_def)


section \<open>The two paths of the reconciliation\<close>

lemma slotNode_nth: "s < length (slotNodes st) \<Longrightarrow> slotNode st s = slotNodes st ! s"
  by (simp add: slotNode_def array_get_def)

lemma loop_binds:
  assumes step: "bindsSlots cfg A Inv"
    and G: "\<And>s. slotFirstIndex s = F \<Longrightarrow> G s = F"
    and F: "0 \<le> F"
  shows "Inv st \<Longrightarrow> slotFirstIndex st = F \<Longrightarrow> distinct (map f xs) \<Longrightarrow>
     (\<forall>i\<in>set xs. f i < slots cfg \<and> F + int (f i) \<in> A) \<Longrightarrow>
     \<exists>st'. (\<forall>R. forEach xs (\<lambda>i s. bindOrHide R cfg (G s + int (f i)) (f i) s) st = Inr st') \<and>
       Inv st' \<and> slotFirstIndex st' = F \<and>
       (\<forall>i\<in>set xs. shownItem st' (f i) = expectedItem cfg F (f i)) \<and>
       (\<forall>s<slots cfg. s \<notin> f ` set xs \<longrightarrow> shownItem st' s = shownItem st s)"
proof (induction xs arbitrary: st)
  case Nil
  then show ?case by simp
next
  case (Cons x xs)
  have fx: "f x < slots cfg" "F + int (f x) \<in> A" using Cons.prems(4) by simp_all
  have idx: "0 \<le> F + int (f x)" using F by simp
  from step Cons.prems(1) fx idx
  obtain s1 where s1: "\<And>R. bindOrHide R cfg (F + int (f x)) (f x) st = Inr s1" "Inv s1"
    "slotFirstIndex s1 = slotFirstIndex st"
    "shownItem s1 (f x) = (if F + int (f x) < totalCount cfg then Some (F + int (f x)) else None)"
    "\<forall>s'<slots cfg. s' \<noteq> f x \<longrightarrow> shownItem s1 s' = shownItem st s'"
    unfolding bindsSlots_def by blast
  have f1: "slotFirstIndex s1 = F" using s1(3) Cons.prems(2) by simp
  from Cons.prems(3,4) have d: "distinct (map f xs)"
    "\<forall>i\<in>set xs. f i < slots cfg \<and> F + int (f i) \<in> A" by simp_all
  from Cons.IH[OF s1(2) f1 d]
  obtain st' where
    st': "\<And>R. forEach xs (\<lambda>i s. bindOrHide R cfg (G s + int (f i)) (f i) s) s1 = Inr st'"
    "Inv st'" "slotFirstIndex st' = F"
    "\<forall>i\<in>set xs. shownItem st' (f i) = expectedItem cfg F (f i)"
    "\<forall>s<slots cfg. s \<notin> f ` set xs \<longrightarrow> shownItem st' s = shownItem s1 s"
    by blast
  have run: "\<forall>R. forEach (x # xs) (\<lambda>i s. bindOrHide R cfg (G s + int (f i)) (f i) s) st = Inr st'"
    using s1(1) st'(1) G[OF Cons.prems(2)] by simp
  have notin: "f x \<notin> f ` set xs" using Cons.prems(3) by auto
  have here: "shownItem st' (f x) = expectedItem cfg F (f x)"
    using st'(5) fx notin s1(4) by (simp add: expectedItem_def)
  have others: "\<forall>s<slots cfg. s \<notin> f ` set (x # xs) \<longrightarrow> shownItem st' s = shownItem st s"
    using st'(5) s1(5) by auto
  show ?case
    using run st'(2,3,4) here others by auto
qed


lemma moveSlots_pos:
  "0 < diff \<Longrightarrow> moveSlots diff xs = drop (nat diff) xs @ take (nat diff) xs"
  by (simp add: moveSlots_def splice_def Let_def)

lemma moveSlots_neg:
  assumes "diff < 0" "nat (- diff) \<le> length xs"
  shows "moveSlots diff xs = drop (length xs - nat (- diff)) xs @ take (length xs - nat (- diff)) xs"
proof -
  have s: "nat (if int (length xs) + diff < 0 then max (int (length xs) + (int (length xs) + diff)) 0
              else min (int (length xs) + diff) (int (length xs))) = length xs - nat (- diff)"
    using assms by auto
  have a: "\<bar>diff\<bar> = - diff" using assms by simp
  show ?thesis
    unfolding moveSlots_def splice_def Let_def s a using assms by simp
qed

lemma splice_mset: "mset (fst (splice xs start c)) + mset (snd (splice xs start c)) = mset xs"
proof -
  have a: "\<And>k. mset (take k xs) + mset (drop k xs) = mset xs"
    by (metis append_take_drop_id mset_append)
  have b: "\<And>k. mset (take c (drop k xs)) + mset (drop (k + c) xs) = mset (drop k xs)"
    by (metis add.commute append_take_drop_id drop_drop mset_append)
  have "\<And>k. mset (take c (drop k xs)) + (mset (take k xs) + mset (drop (k + c) xs)) = mset xs"
    using a b by (metis add.assoc add.commute)
  then show ?thesis
    by (simp add: splice_def Let_def)
qed

lemma moveSlots_mset [simp]: "mset (moveSlots diff xs) = mset xs"
proof (cases "0 < diff")
  case True
  then have "moveSlots diff xs =
      snd (splice xs 0 (nat \<bar>diff\<bar>)) @ fst (splice xs 0 (nat \<bar>diff\<bar>))"
    by (simp only: moveSlots_def if_True)
  then show ?thesis
    using splice_mset[of xs 0 "nat \<bar>diff\<bar>"] by (simp only: mset_append add.commute)
next
  case False
  then have "moveSlots diff xs =
      fst (splice xs (int (length xs) + diff) (nat \<bar>diff\<bar>))
        @ snd (splice xs (int (length xs) + diff) (nat \<bar>diff\<bar>))"
    by (simp only: moveSlots_def if_False)
  then show ?thesis
    using splice_mset[of xs "int (length xs) + diff" "nat \<bar>diff\<bar>"] by (simp only: mset_append)
qed

lemma moveSlots_length [simp]: "length (moveSlots diff xs) = length xs"
  by (rule mset_eq_length) simp

lemma moveSlots_set [simp]: "set (moveSlots diff xs) = set xs"
  by (rule mset_eq_setD) simp

lemma moveSlots_distinct [simp]: "distinct (moveSlots diff xs) = distinct xs"
  using moveSlots_mset[of diff xs] by (metis mset_eq_imp_distinct_iff)

lemma moveSlots_nth_pos:
  assumes "0 < diff" "s + nat diff < length xs"
  shows "moveSlots diff xs ! s = xs ! (s + nat diff)"
proof -
  have "s < length (drop (nat diff) xs)" using assms by simp
  then show ?thesis
    using assms by (simp add: moveSlots_pos nth_append add.commute)
qed

lemma moveSlots_nth_neg:
  assumes "diff < 0" "nat (- diff) < length xs" "nat (- diff) \<le> s" "s < length xs"
  shows "moveSlots diff xs ! s = xs ! (s - nat (- diff))"
proof -
  let ?d = "nat (- diff)"
  have l: "length (drop (length xs - ?d) xs) = ?d" using assms by simp
  have "moveSlots diff xs ! s = (take (length xs - ?d) xs) ! (s - ?d)"
    using assms l by (simp add: moveSlots_neg nth_append)
  also have "\<dots> = xs ! (s - ?d)" using assms by simp
  finally show ?thesis .
qed


lemma fields_setNode [simp]:
  "slotNodes (setNode n f st) = slotNodes st"
  "slotFirstIndex (setNode n f st) = slotFirstIndex st"
  "slotPrefabIndices (setNode n f st) = slotPrefabIndices st"
  "nodePool (setNode n f st) = nodePool st"
  "nextNode (setNode n f st) = nextNode st"
  "prefixPositions (setNode n f st) = prefixPositions st"
  "nodes (setNode n f st) = (nodes st)(n := f (nodes st n))"
  by (simp_all add: setNode_def)

lemma fields_render [simp]:
  "slotNodes (render cfg n idx st) = slotNodes st"
  "slotFirstIndex (render cfg n idx st) = slotFirstIndex st"
  "slotPrefabIndices (render cfg n idx st) = slotPrefabIndices st"
  "nodePool (render cfg n idx st) = nodePool st"
  "nextNode (render cfg n idx st) = nextNode st"
  "prefixPositions (render cfg n idx st) = prefixPositions st"
  "m \<noteq> n \<Longrightarrow> nodes (render cfg n idx st) m = nodes st m"
  "nodeActive (nodes (render cfg n idx st) m) = nodeActive (nodes st m)"
  "nodeDataIndex (nodes (render cfg n idx st) m) = nodeDataIndex (nodes st m)"
  by (simp_all add: render_def setNode_def split: option.splits)

lemma fields_playAppear [simp]:
  "slotNodes (playAppear idx st) = slotNodes st"
  "slotFirstIndex (playAppear idx st) = slotFirstIndex st"
  "slotPrefabIndices (playAppear idx st) = slotPrefabIndices st"
  "nodePool (playAppear idx st) = nodePool st"
  "nextNode (playAppear idx st) = nextNode st"
  "prefixPositions (playAppear idx st) = prefixPositions st"
  "nodes (playAppear idx st) = nodes st"
  by (simp_all add: playAppear_def)

lemma shownItem_nth:
  "s < length (slotNodes st) \<Longrightarrow>
   shownItem st s =
     (case slotNodes st ! s of
        Some n \<Rightarrow> if nodeActive (nodes st n) then Some (nodeDataIndex (nodes st n)) else None
      | None \<Rightarrow> None)"
  by (simp add: shownItem_def slotNode_nth)

lemma layoutFixedNode_result:
  assumes "gridCount cfg \<noteq> 0" "useVirtualList cfg"
  shows "\<exists>st'. layoutFixedNode cfg n idx st = Inr st' \<and> slotNodes st' = slotNodes st \<and>
           slotFirstIndex st' = slotFirstIndex st \<and> (\<forall>m. m \<noteq> n \<longrightarrow> nodes st' m = nodes st m) \<and>
           nodeActive (nodes st' n) \<and> nodeDataIndex (nodes st' n) = idx"
  using assms by (simp add: layoutFixedNode_def Let_def updateItemClickHandler_def)

lemma fixed_bind:
  assumes ok: "fixedOk cfg st" and sl: "slot < slots cfg"
  shows "\<exists>st'. (\<forall>R. bindOrHide R cfg idx slot st = Inr st') \<and> fixedOk cfg st' \<and>
           slotNodes st' = slotNodes st \<and> slotFirstIndex st' = slotFirstIndex st \<and>
           shownItem st' slot = (if idx < totalCount cfg then Some idx else None) \<and>
           (\<forall>s'<slots cfg. s' \<noteq> slot \<longrightarrow> shownItem st' s' = shownItem st s')"
proof -
  from ok have c: "useVirtualList cfg" "\<not> useDynamicSize cfg" "gridCount cfg \<noteq> 0"
    and len: "length (slotNodes st) = slots cfg" and dist: "distinct (slotNodes st)"
    and full: "None \<notin> set (slotNodes st)"
    unfolding fixedOk_def by simp_all
  have "slotNodes st ! slot \<in> set (slotNodes st)" using sl len by simp
  with full obtain n where n: "slotNodes st ! slot = Some n" by (cases "slotNodes st ! slot") auto
  have sn: "slotNode st slot = Some n" using slotNode_nth[of slot st] sl len n by simp
  have "\<exists>st'. (\<forall>R. bindOrHide R cfg idx slot st = Inr st') \<and> slotNodes st' = slotNodes st \<and>
           slotFirstIndex st' = slotFirstIndex st \<and> (\<forall>m. m \<noteq> n \<longrightarrow> nodes st' m = nodes st m) \<and>
           nodeActive (nodes st' n) = (idx < totalCount cfg) \<and>
           (idx < totalCount cfg \<longrightarrow> nodeDataIndex (nodes st' n) = idx)"
  proof (cases "idx < totalCount cfg")
    case True
    have "\<And>R. bindOrHide R cfg idx slot st = layoutFixedNode cfg n idx st"
      unfolding bindOrHide_def layoutSingleSlotWith_def using c sn True by simp
    with layoutFixedNode_result[OF c(3,1), of n idx st] True show ?thesis by auto
  next
    case False
    then show ?thesis
      unfolding bindOrHide_def deactivate_def using sn by simp
  qed
  then obtain st' where run: "\<And>R. bindOrHide R cfg idx slot st = Inr st'"
    and sl': "slotNodes st' = slotNodes st" "slotFirstIndex st' = slotFirstIndex st"
    and other: "\<And>m. m \<noteq> n \<Longrightarrow> nodes st' m = nodes st m"
    and act: "nodeActive (nodes st' n) = (idx < totalCount cfg)"
    and di: "idx < totalCount cfg \<Longrightarrow> nodeDataIndex (nodes st' n) = idx"
    by blast
  have ok': "fixedOk cfg st'" using ok sl' unfolding fixedOk_def by simp
  have here: "shownItem st' slot = (if idx < totalCount cfg then Some idx else None)"
    using shownItem_nth[of slot st'] sl len sl' n act di by simp
  have others: "\<forall>s'<slots cfg. s' \<noteq> slot \<longrightarrow> shownItem st' s' = shownItem st s'"
  proof (intro allI impI)
    fix s' assume a: "s' < slots cfg" "s' \<noteq> slot"
    have ne: "slotNodes st ! s' \<noteq> Some n"
      using dist a sl len n by (metis nth_eq_iff_index_eq)
    show "shownItem st' s' = shownItem st s'"
      using shownItem_nth[of s' st'] shownItem_nth[of s' st] a len sl' ne other
      by (auto split: option.splits)
  qed
  show ?thesis using run ok' sl' here others by blast
qed

lemma shownItem_rotateWindow:
  "s < length (slotNodes st) \<Longrightarrow>
   shownItem (rotateWindow cfg d F st) s =
     (case moveSlots d (slotNodes st) ! s of
        Some n \<Rightarrow> if nodeActive (nodes st n) then Some (nodeDataIndex (nodes st n)) else None
      | None \<Rightarrow> None)"
  by (simp add: shownItem_def slotNode_def array_get_def rotateWindow_def Let_def
        cong: option.case_cong if_cong)

lemma slotFirstIndex_rotateWindow [simp]: "slotFirstIndex (rotateWindow cfg d F st) = F"
  by (simp add: rotateWindow_def Let_def)

lemma slotNodes_rotateWindow [simp]:
  "slotNodes (rotateWindow cfg d F st) = moveSlots d (slotNodes st)"
  by (simp add: rotateWindow_def Let_def)

lemma shownItem_setFirst [simp]: "shownItem (st\<lparr>slotFirstIndex := F\<rparr>) s = shownItem st s"
  by (simp add: shownItem_def slotNode_def cong: option.case_cong if_cong)

lemma zip_moveSlots:
  "length xs = length ys \<Longrightarrow> zip (moveSlots d xs) (moveSlots d ys) = moveSlots d (zip xs ys)"
  by (simp add: moveSlots_def splice_def Let_def take_zip drop_zip)

lemma poolsOk_rotate:
  assumes "poolsOk cfg pools xs cs nn"
  shows "poolsOk cfg pools (moveSlots d xs) (moveSlots d cs) nn"
proof -
  from assms have len: "length cs = length xs" unfolding poolsOk_def by simp
  have z: "set (zip (moveSlots d xs) (moveSlots d cs)) = set (zip xs cs)"
    using zip_moveSlots[OF len[symmetric], of d] by simp
  show ?thesis
    using assms unfolding poolsOk_def z by simp
qed

lemma uniq_slot:
  assumes c: "count (mset xs) a \<le> 1" and s: "s < length xs" "s' < length xs"
    and e: "xs ! s = a" "xs ! s' = a"
  shows "s = s'"
proof (rule ccontr)
  assume ne: "s \<noteq> s'"
  define i where "i = min s s'"
  define j where "j = max s s'"
  have ij: "i < j" "j < length xs" "xs ! i = a" "xs ! j = a"
    using ne s e unfolding i_def j_def by (auto simp: min_def max_def)
  have xs: "xs = take j xs @ xs ! j # drop (Suc j) xs"
    using ij(2) by (rule id_take_nth_drop)
  have "i < length (take j xs)" "take j xs ! i = a"
    using ij by simp_all
  then have "a \<in> set (take j xs)"
    using nth_mem by blast
  then have "1 \<le> count (mset (take j xs)) a" by (simp add: Suc_le_eq)
  moreover have "count (mset xs) a = count (mset (take j xs)) a + 1 + count (mset (drop (Suc j) xs)) a"
    by (subst xs) (simp add: ij(4))
  ultimately show False using c by simp
qed

lemma count_update_le:
  assumes "i < length xs"
  shows "count (mset (xs[i := v])) a \<le> (if a = v then 1 else 0) + count (mset xs) a"
  using assms by (simp add: mset_update)

lemma set_update_uniq:
  assumes c: "count (mset xs) a \<le> 1" and s: "s < length xs" and e: "xs ! s = a" and v: "v \<noteq> a"
  shows "a \<notin> set (xs[s := v])"
proof
  assume "a \<in> set (xs[s := v])"
  then obtain j where j: "j < length xs" "xs[s := v] ! j = a"
    by (auto simp: in_set_conv_nth)
  with v s have "j \<noteq> s" by auto
  with j have "xs ! j = a" by simp
  from uniq_slot[OF c j(1) s this e] \<open>j \<noteq> s\<close> show False by simp
qed

lemma zip_update_subset:
  "set (zip (xs[i := a]) (cs[i := b])) \<subseteq> insert (a, b) (set (zip xs cs))"
  using set_update_subset_insert[of "zip xs cs" i "(a, b)"] by (simp add: update_zip)


lemma poolsOkI:
  assumes "length cs = length xs"
    and "\<And>idx. 0 \<le> idx \<Longrightarrow> idx < totalCount cfg \<Longrightarrow> pools (itemType cfg idx) \<noteq> None"
    and "\<And>ty p. pools ty = Some p \<Longrightarrow> distinct p"
    and "\<And>ty p n. pools ty = Some p \<Longrightarrow> n \<in> set p \<Longrightarrow> n < nn"
    and "\<And>ty p n. pools ty = Some p \<Longrightarrow> n \<in> set p \<Longrightarrow> Some n \<notin> set xs"
    and "\<And>ty ty' p p' n. pools ty = Some p \<Longrightarrow> pools ty' = Some p' \<Longrightarrow> n \<in> set p \<Longrightarrow>
           n \<in> set p' \<Longrightarrow> ty = ty'"
    and "\<And>n. count (mset xs) (Some n) \<le> 1"
    and "\<And>n c. (Some n, c) \<in> set (zip xs cs) \<Longrightarrow> n < nn \<and> (\<exists>ty. c = Some ty \<and> pools ty \<noteq> None)"
  shows "poolsOk cfg pools xs cs nn"
proof -
  have a: "\<forall>(x, c) \<in> set (zip xs cs). \<forall>n. x = Some n \<longrightarrow>
             n < nn \<and> (\<exists>ty. c = Some ty \<and> pools ty \<noteq> None)"
    using assms(8) by auto
  have b: "\<forall>ty ty' p p' n. pools ty = Some p \<and> pools ty' = Some p' \<and> n \<in> set p \<and> n \<in> set p'
             \<longrightarrow> ty = ty'"
    using assms(6) by blast
  have c: "\<forall>ty p. pools ty = Some p \<longrightarrow> distinct p \<and> (\<forall>n\<in>set p. n < nn \<and> Some n \<notin> set xs)"
    using assms(3,4,5) by blast
  have d: "\<forall>idx. 0 \<le> idx \<and> idx < totalCount cfg \<longrightarrow> pools (itemType cfg idx) \<noteq> None"
    using assms(2) by blast
  have e: "\<forall>n. count (mset xs) (Some n) \<le> 1" using assms(7) by blast
  show ?thesis unfolding poolsOk_def using assms(1) a b c d e by (intro conjI)
qed

lemma poolsOkD:
  assumes "poolsOk cfg pools xs cs nn"
  shows "length cs = length xs"
    and "\<And>idx. 0 \<le> idx \<Longrightarrow> idx < totalCount cfg \<Longrightarrow> pools (itemType cfg idx) \<noteq> None"
    and "\<And>ty p. pools ty = Some p \<Longrightarrow> distinct p"
    and "\<And>ty p n. pools ty = Some p \<Longrightarrow> n \<in> set p \<Longrightarrow> n < nn"
    and "\<And>ty p n. pools ty = Some p \<Longrightarrow> n \<in> set p \<Longrightarrow> Some n \<notin> set xs"
    and "\<And>ty ty' p p' n. pools ty = Some p \<Longrightarrow> pools ty' = Some p' \<Longrightarrow> n \<in> set p \<Longrightarrow>
           n \<in> set p' \<Longrightarrow> ty = ty'"
    and "\<And>n. count (mset xs) (Some n) \<le> 1"
    and "\<And>n c. (Some n, c) \<in> set (zip xs cs) \<Longrightarrow> n < nn \<and> (\<exists>ty. c = Some ty \<and> pools ty \<noteq> None)"
proof -
  note a = assms[unfolded poolsOk_def]
  show "length cs = length xs" using a by simp
  show "\<And>idx. 0 \<le> idx \<Longrightarrow> idx < totalCount cfg \<Longrightarrow> pools (itemType cfg idx) \<noteq> None"
    using a by simp
  show "\<And>ty p. pools ty = Some p \<Longrightarrow> distinct p" using a by blast
  show "\<And>ty p n. pools ty = Some p \<Longrightarrow> n \<in> set p \<Longrightarrow> n < nn" using a by blast
  show "\<And>ty p n. pools ty = Some p \<Longrightarrow> n \<in> set p \<Longrightarrow> Some n \<notin> set xs" using a by blast
  show "\<And>ty ty' p p' n. pools ty = Some p \<Longrightarrow> pools ty' = Some p' \<Longrightarrow> n \<in> set p \<Longrightarrow>
           n \<in> set p' \<Longrightarrow> ty = ty'" using a by blast
  show "\<And>n. count (mset xs) (Some n) \<le> 1" using a by blast
  show "\<And>n c. (Some n, c) \<in> set (zip xs cs) \<Longrightarrow> n < nn \<and> (\<exists>ty. c = Some ty \<and> pools ty \<noteq> None)"
    using a by blast
qed

lemma zip_clear:
  assumes "(Some n, c) \<in> set (zip (xs[slot := None]) cs)"
  shows "(Some n, c) \<in> set (zip xs cs)"
proof -
  have "zip (xs[slot := None]) cs = zip (xs[slot := None]) (cs[slot := cs ! slot])" by simp
  then have "set (zip (xs[slot := None]) cs) \<subseteq> insert (None, cs ! slot) (set (zip xs cs))"
    using zip_update_subset[of xs slot None cs "cs ! slot"] by simp
  with assms show ?thesis by auto
qed

lemma set_clear: "Some n \<in> set (xs[slot := None]) \<Longrightarrow> Some n \<in> set xs"
  using set_update_subset_insert[of xs slot None] by auto

lemma count_clear:
  assumes "slot < length xs" "count (mset xs) (Some n) \<le> 1"
  shows "count (mset (xs[slot := None])) (Some n) \<le> 1"
  using count_update_le[OF assms(1), of None "Some n"] assms(2) by simp

lemma poolsOk_drop:
  assumes ok: "poolsOk cfg pools xs cs nn" and s: "slot < length xs"
  shows "poolsOk cfg pools (xs[slot := None]) cs nn"
proof (rule poolsOkI)
  note d = poolsOkD[OF ok]
  show "length cs = length (xs[slot := None])" using d(1) by simp
  show "\<And>idx. 0 \<le> idx \<Longrightarrow> idx < totalCount cfg \<Longrightarrow> pools (itemType cfg idx) \<noteq> None"
    by (rule d(2))
  show "\<And>ty p. pools ty = Some p \<Longrightarrow> distinct p" by (rule d(3))
  show "\<And>ty p n. pools ty = Some p \<Longrightarrow> n \<in> set p \<Longrightarrow> n < nn" by (rule d(4))
  show "\<And>ty p n. pools ty = Some p \<Longrightarrow> n \<in> set p \<Longrightarrow> Some n \<notin> set (xs[slot := None])"
  proof -
    fix ty p n assume "pools ty = Some p" "n \<in> set p"
    from d(5)[OF this] show "Some n \<notin> set (xs[slot := None])"
      using set_clear[of n xs slot] by auto
  qed
  show "\<And>ty ty' p p' n. pools ty = Some p \<Longrightarrow> pools ty' = Some p' \<Longrightarrow> n \<in> set p \<Longrightarrow>
           n \<in> set p' \<Longrightarrow> ty = ty'" by (rule d(6))
  show "\<And>n. count (mset (xs[slot := None])) (Some n) \<le> 1"
    by (rule count_clear[OF s d(7)])
  show "\<And>n c. (Some n, c) \<in> set (zip (xs[slot := None]) cs) \<Longrightarrow>
          n < nn \<and> (\<exists>ty. c = Some ty \<and> pools ty \<noteq> None)"
    by (rule d(8)[OF zip_clear])
qed

lemma poolsOk_put:
  assumes ok: "poolsOk cfg pools xs cs nn" and s: "slot < length xs"
    and x: "xs ! slot = Some n" and c: "cs ! slot = Some c" and pc: "pools c = Some pc"
  shows "poolsOk cfg (pools(c \<mapsto> pc @ [n])) (xs[slot := None]) cs nn"
proof (rule poolsOkI)
  note d = poolsOkD[OF ok]
  let ?P = "pools(c \<mapsto> pc @ [n])"
  have inx: "Some n \<in> set xs" using nth_mem[OF s] x by simp
  have npc: "\<And>ty p. pools ty = Some p \<Longrightarrow> n \<notin> set p" using d(5) inx by blast
  have "zip xs cs ! slot = (Some n, Some c)" "slot < length (zip xs cs)"
    using s x c d(1) by simp_all
  then have zin: "(Some n, Some c) \<in> set (zip xs cs)" using nth_mem by metis
  have nn: "n < nn" using d(8)[OF zin] by simp
  have gone: "Some n \<notin> set (xs[slot := None])"
    by (rule set_update_uniq[OF d(7) s x]) simp
  show "length cs = length (xs[slot := None])" using d(1) by simp
  show "\<And>idx. 0 \<le> idx \<Longrightarrow> idx < totalCount cfg \<Longrightarrow> ?P (itemType cfg idx) \<noteq> None"
    using d(2) by simp
  show "\<And>ty p. ?P ty = Some p \<Longrightarrow> distinct p"
    using d(3) npc[OF pc] pc by (auto split: if_splits)
  show "\<And>ty p k. ?P ty = Some p \<Longrightarrow> k \<in> set p \<Longrightarrow> k < nn"
    using d(4) nn pc by (auto split: if_splits)
  show "\<And>ty p k. ?P ty = Some p \<Longrightarrow> k \<in> set p \<Longrightarrow> Some k \<notin> set (xs[slot := None])"
  proof -
    fix ty p k assume a: "?P ty = Some p" "k \<in> set p"
    have "k = n \<or> (\<exists>q. pools ty = Some q \<and> k \<in> set q)"
      using a pc by (cases "ty = c") auto
    then show "Some k \<notin> set (xs[slot := None])"
    proof
      assume "k = n" then show ?thesis using gone by simp
    next
      assume "\<exists>q. pools ty = Some q \<and> k \<in> set q"
      then have "Some k \<notin> set xs" using d(5) by blast
      then show ?thesis using set_clear[of k xs slot] by auto
    qed
  qed
  show "\<And>ty ty' p p' k. ?P ty = Some p \<Longrightarrow> ?P ty' = Some p' \<Longrightarrow> k \<in> set p \<Longrightarrow>
           k \<in> set p' \<Longrightarrow> ty = ty'"
  proof -
    fix ty ty' p p' k assume a: "?P ty = Some p" "?P ty' = Some p'" "k \<in> set p" "k \<in> set p'"
    have l: "(ty = c \<and> k = n) \<or> (\<exists>q. pools ty = Some q \<and> k \<in> set q)"
      using a(1,3) pc by (cases "ty = c") auto
    have r: "(ty' = c \<and> k = n) \<or> (\<exists>q. pools ty' = Some q \<and> k \<in> set q)"
      using a(2,4) pc by (cases "ty' = c") auto
    from l r show "ty = ty'" using npc d(6) by blast
  qed
  show "\<And>k. count (mset (xs[slot := None])) (Some k) \<le> 1"
    by (rule count_clear[OF s d(7)])
  show "\<And>k c'. (Some k, c') \<in> set (zip (xs[slot := None]) cs) \<Longrightarrow>
          k < nn \<and> (\<exists>ty. c' = Some ty \<and> ?P ty \<noteq> None)"
  proof -
    fix k c' assume "(Some k, c') \<in> set (zip (xs[slot := None]) cs)"
    from d(8)[OF zip_clear[OF this]] show "k < nn \<and> (\<exists>ty. c' = Some ty \<and> ?P ty \<noteq> None)"
      by auto
  qed
qed

lemma zip_fill:
  assumes "(Some k, c') \<in> set (zip (xs[slot := Some m]) (cs[slot := Some t]))"
  shows "(k = m \<and> c' = Some t) \<or> (Some k, c') \<in> set (zip xs cs)"
  using assms zip_update_subset[of xs slot "Some m" cs "Some t"] by auto

lemma set_fill: "Some k \<in> set (xs[slot := Some m]) \<Longrightarrow> k = m \<or> Some k \<in> set xs"
  using set_update_subset_insert[of xs slot "Some m"] by auto

lemma count_fill:
  assumes s: "slot < length xs" and c: "\<And>k. count (mset xs) (Some k) \<le> 1"
    and m: "Some m \<notin> set xs"
  shows "count (mset (xs[slot := Some m])) (Some k) \<le> 1"
proof (cases "k = m")
  case True
  have "count (mset xs) (Some m) = 0" using m by (simp add: count_eq_zero_iff)
  with count_update_le[OF s, of "Some m" "Some m"] True show ?thesis by simp
next
  case False
  with count_update_le[OF s, of "Some m" "Some k"] c[of k] show ?thesis by simp
qed

lemma poolsOk_pop:
  assumes ok: "poolsOk cfg pools xs cs nn" and s: "slot < length xs"
    and p: "pools t = Some p" "p \<noteq> []"
  shows "poolsOk cfg (pools(t \<mapsto> butlast p)) (xs[slot := Some (last p)]) (cs[slot := Some t]) nn"
proof (rule poolsOkI)
  note d = poolsOkD[OF ok]
  let ?P = "pools(t \<mapsto> butlast p)"
  let ?m = "last p"
  have mp: "?m \<in> set p" using p(2) by simp
  have "distinct (butlast p @ [last p])" using d(3)[OF p(1)] p(2) by simp
  then have mb: "?m \<notin> set (butlast p)" by simp
  have bp: "\<And>k. k \<in> set (butlast p) \<Longrightarrow> k \<in> set p" by (rule in_set_butlastD)
  have mx: "Some ?m \<notin> set xs" using d(5)[OF p(1) mp] .
  have other: "\<And>ty q. ty \<noteq> t \<Longrightarrow> pools ty = Some q \<Longrightarrow> ?m \<notin> set q"
  proof
    fix ty q assume a: "ty \<noteq> t" "pools ty = Some q" "?m \<in> set q"
    from d(6)[OF a(2) p(1) a(3) mp] a(1) show False by simp
  qed
  show "length (cs[slot := Some t]) = length (xs[slot := Some ?m])" using d(1) by simp
  show "\<And>idx. 0 \<le> idx \<Longrightarrow> idx < totalCount cfg \<Longrightarrow> ?P (itemType cfg idx) \<noteq> None"
    using d(2) by simp
  show "\<And>ty q. ?P ty = Some q \<Longrightarrow> distinct q"
    using d(3) p(1) by (auto split: if_splits simp: distinct_butlast)
  show "\<And>ty q k. ?P ty = Some q \<Longrightarrow> k \<in> set q \<Longrightarrow> k < nn"
    using d(4) p(1) bp by (auto split: if_splits)
  show "\<And>ty q k. ?P ty = Some q \<Longrightarrow> k \<in> set q \<Longrightarrow> Some k \<notin> set (xs[slot := Some ?m])"
  proof -
    fix ty q k assume a: "?P ty = Some q" "k \<in> set q"
    have "k \<noteq> ?m" using a mb other by (cases "ty = t") auto
    moreover have "Some k \<notin> set xs" using a d(5) p(1) bp by (cases "ty = t") auto
    ultimately show "Some k \<notin> set (xs[slot := Some ?m])"
      using set_fill[of k xs slot ?m] by auto
  qed
  show "\<And>ty ty' q q' k. ?P ty = Some q \<Longrightarrow> ?P ty' = Some q' \<Longrightarrow> k \<in> set q \<Longrightarrow>
           k \<in> set q' \<Longrightarrow> ty = ty'"
  proof -
    fix ty ty' q q' k assume a: "?P ty = Some q" "?P ty' = Some q'" "k \<in> set q" "k \<in> set q'"
    obtain r where r: "pools ty = Some r" "k \<in> set r"
      using a(1,3) p(1) bp by (cases "ty = t") auto
    obtain r' where r': "pools ty' = Some r'" "k \<in> set r'"
      using a(2,4) p(1) bp by (cases "ty' = t") auto
    show "ty = ty'" using d(6)[OF r(1) r'(1) r(2) r'(2)] .
  qed
  show "\<And>k. count (mset (xs[slot := Some ?m])) (Some k) \<le> 1"
    using count_fill[OF s d(7) mx] .
  show "\<And>k c'. (Some k, c') \<in> set (zip (xs[slot := Some ?m]) (cs[slot := Some t])) \<Longrightarrow>
          k < nn \<and> (\<exists>ty. c' = Some ty \<and> ?P ty \<noteq> None)"
  proof -
    fix k c' assume "(Some k, c') \<in> set (zip (xs[slot := Some ?m]) (cs[slot := Some t]))"
    from zip_fill[OF this] show "k < nn \<and> (\<exists>ty. c' = Some ty \<and> ?P ty \<noteq> None)"
    proof
      assume "k = ?m \<and> c' = Some t"
      then show ?thesis using d(4)[OF p(1) mp] by simp
    next
      assume "(Some k, c') \<in> set (zip xs cs)"
      from d(8)[OF this] show ?thesis by auto
    qed
  qed
qed

lemma poolsOk_fresh:
  assumes ok: "poolsOk cfg pools xs cs nn" and s: "slot < length xs"
    and p: "pools t = Some p"
    and bound: "\<And>k. Some k \<in> set xs \<Longrightarrow> k < nn"
  shows "poolsOk cfg pools (xs[slot := Some nn]) (cs[slot := Some t]) (Suc nn)"
proof (rule poolsOkI)
  note d = poolsOkD[OF ok]
  have mx: "Some nn \<notin> set xs" using bound by blast
  show "length (cs[slot := Some t]) = length (xs[slot := Some nn])" using d(1) by simp
  show "\<And>idx. 0 \<le> idx \<Longrightarrow> idx < totalCount cfg \<Longrightarrow> pools (itemType cfg idx) \<noteq> None"
    by (rule d(2))
  show "\<And>ty q. pools ty = Some q \<Longrightarrow> distinct q" by (rule d(3))
  show "\<And>ty q k. pools ty = Some q \<Longrightarrow> k \<in> set q \<Longrightarrow> k < Suc nn"
    using d(4) less_Suc_eq by blast
  show "\<And>ty q k. pools ty = Some q \<Longrightarrow> k \<in> set q \<Longrightarrow> Some k \<notin> set (xs[slot := Some nn])"
  proof -
    fix ty q k assume a: "pools ty = Some q" "k \<in> set q"
    have "k \<noteq> nn" using d(4)[OF a] by simp
    moreover have "Some k \<notin> set xs" using d(5)[OF a] .
    ultimately show "Some k \<notin> set (xs[slot := Some nn])"
      using set_fill[of k xs slot nn] by auto
  qed
  show "\<And>ty ty' q q' k. pools ty = Some q \<Longrightarrow> pools ty' = Some q' \<Longrightarrow> k \<in> set q \<Longrightarrow>
           k \<in> set q' \<Longrightarrow> ty = ty'" by (rule d(6))
  show "\<And>k. count (mset (xs[slot := Some nn])) (Some k) \<le> 1"
    using count_fill[OF s d(7) mx] .
  show "\<And>k c'. (Some k, c') \<in> set (zip (xs[slot := Some nn]) (cs[slot := Some t])) \<Longrightarrow>
          k < Suc nn \<and> (\<exists>ty. c' = Some ty \<and> pools ty \<noteq> None)"
  proof -
    fix k c' assume "(Some k, c') \<in> set (zip (xs[slot := Some nn]) (cs[slot := Some t]))"
    from zip_fill[OF this] show "k < Suc nn \<and> (\<exists>ty. c' = Some ty \<and> pools ty \<noteq> None)"
    proof
      assume "k = nn \<and> c' = Some t"
      then show ?thesis using p by simp
    next
      assume "(Some k, c') \<in> set (zip xs cs)"
      from d(8)[OF this] show ?thesis by auto
    qed
  qed
qed

lemma slot_bound:
  assumes ok: "poolsOk cfg pools xs cs nn" and k: "Some k \<in> set xs"
  shows "k < nn"
proof -
  note d = poolsOkD[OF ok]
  from k obtain i where i: "i < length xs" "xs ! i = Some k" by (auto simp: in_set_conv_nth)
  then have "zip xs cs ! i = (Some k, cs ! i)" "i < length (zip xs cs)"
    using d(1) by simp_all
  then have "(Some k, cs ! i) \<in> set (zip xs cs)" using nth_mem by metis
  from d(8)[OF this] show ?thesis by simp
qed


lemma dynOk_cong:
  assumes "slotNodes b = slotNodes a" "slotPrefabIndices b = slotPrefabIndices a"
    "nodePool b = nodePool a" "nextNode b = nextNode a" "itemSizes b = itemSizes a"
    "prefixPositions b = prefixPositions a"
  shows "dynOk cfg A b = dynOk cfg A a"
  unfolding dynOk_def sizesSettled_def assms ..

lemma dyn_layoutNode:
  assumes vl: "useVirtualList cfg" and ss: "sizesSettled cfg A st"
    and i: "0 \<le> idx" "idx < totalCount cfg" "idx \<in> A"
  shows "\<exists>st'. (\<forall>R. layoutDynamicNode R cfg n idx st = Inr st') \<and> slotNodes st' = slotNodes st \<and>
           slotPrefabIndices st' = slotPrefabIndices st \<and> nodePool st' = nodePool st \<and>
           nextNode st' = nextNode st \<and> itemSizes st' = itemSizes st \<and>
           prefixPositions st' = prefixPositions st \<and> slotFirstIndex st' = slotFirstIndex st \<and>
           sizeTable st' = sizeTable st \<and>
           (\<forall>m. m \<noteq> n \<longrightarrow> nodes st' m = nodes st m) \<and>
           nodeActive (nodes st' n) \<and> nodeDataIndex (nodes st' n) = idx"
proof -
  from ss i obtain sz p where sz: "array_get (itemSizes st) idx = Some sz"
      "array_get (prefixPositions st) idx = Some p"
    and fb: "case getItemHeightFn cfg of
               Some h \<Rightarrow> h idx = sz
             | None \<Rightarrow>
                 (case renderItemFn cfg of
                    Some f \<Rightarrow>
                      \<forall>n old. \<bar>sz - (if isVertical cfg then snd (f n idx old)
                                      else fst (f n idx old))\<bar> \<le> 1
                  | None \<Rightarrow> False)"
    unfolding sizesSettled_def by blast
  show ?thesis
  proof (cases "getItemHeightFn cfg")
    case (Some h)
    then have "h idx = sz" using fb by simp
    then show ?thesis
      using Some sz vl unfolding layoutDynamicNode_def
      by (simp add: Let_def updateItemClickHandler_def render_def setNode_def playAppear_def
            sizeTable_def split: option.splits)
  next
    case None
    then obtain f where f: "renderItemFn cfg = Some f"
      and b: "\<And>n old. \<bar>sz - (if isVertical cfg then snd (f n idx old)
                                      else fst (f n idx old))\<bar> \<le> 1"
      using fb by (auto split: option.splits)
    have nb: "\<not> 1 < \<bar>sz - (if isVertical cfg then snd (f n idx (nodeSize (nodes st n)))
                                      else fst (f n idx (nodeSize (nodes st n))))\<bar>"
      using b[of n "nodeSize (nodes st n)"] by (simp only: not_less)
    show ?thesis
    proof (cases "isVertical cfg")
      case True
      with nb have "\<not> 1 < \<bar>sz - snd (f n idx (nodeSize (nodes st n)))\<bar>" by simp
      then show ?thesis
        using None f sz vl True unfolding layoutDynamicNode_def
        by (simp add: Let_def updateItemClickHandler_def render_def setNode_def playAppear_def
              getNodeMainSize_def sizeTable_def)
    next
      case False
      with nb have "\<not> 1 < \<bar>sz - fst (f n idx (nodeSize (nodes st n)))\<bar>" by simp
      then show ?thesis
        using None f sz vl False unfolding layoutDynamicNode_def
        by (simp add: Let_def updateItemClickHandler_def render_def setNode_def playAppear_def
              getNodeMainSize_def sizeTable_def)
    qed
  qed
qed


lemma dyn_acquire:
  assumes ok: "dynOk cfg A st" and sl: "slot < slots cfg" and i: "0 \<le> idx" "idx < totalCount cfg"
  shows "\<exists>m S. (\<forall>R nd. layoutSingleSlotWith R cfg nd idx slot st =
                          layoutDynamicNode R cfg m idx S) \<and>
           dynOk cfg A S \<and> slotFirstIndex S = slotFirstIndex st \<and>
           sizeTable S = sizeTable st \<and>
           slotNodes S = (slotNodes st)[slot := Some m] \<and>
           (\<forall>k. k \<noteq> m \<longrightarrow> slotNodes st ! slot \<noteq> Some k \<longrightarrow> nodes S k = nodes st k)"
proof -
  let ?xs = "slotNodes st" and ?cs = "slotPrefabIndices st" and ?nn = "nextNode st"
  let ?t = "case getItemTypeIndexFn cfg of Some f \<Rightarrow> f idx | None \<Rightarrow> 0"
  from ok obtain pools where vl: "useVirtualList cfg" and dyn: "useDynamicSize cfg"
    and len: "length ?xs = slots cfg" and ss: "sizesSettled cfg A st"
    and np: "nodePool st = Some pools" and pk: "poolsOk cfg pools ?xs ?cs ?nn"
    unfolding dynOk_def by (auto split: option.splits)
  note d = poolsOkD[OF pk]
  have sx: "slot < length ?xs" "slot < length ?cs" using sl len d(1) by simp_all
  have sn: "slotNode st slot = ?xs ! slot" using slotNode_nth sx by simp
  have cur: "Option.bind (array_get ?cs (int slot)) (\<lambda>c. c) = ?cs ! slot"
    using sx by (simp add: array_get_def)
  obtain p where p: "pools ?t = Some p"
    using d(2)[OF i] unfolding itemType_def by auto
  show ?thesis
  proof (cases "?cs ! slot = Some ?t \<and> ?xs ! slot \<noteq> None")
    case True
    then obtain n where n: "?xs ! slot = Some n" by auto
    have "\<forall>R nd. layoutSingleSlotWith R cfg nd idx slot st = layoutDynamicNode R cfg n idx st"
      unfolding layoutSingleSlotWith_def using vl dyn True n sn cur by (simp add: Let_def)
    moreover have "?xs = ?xs[slot := Some n]" using n by (metis list_update_id)
    ultimately show ?thesis using ok by (intro exI[of _ n] exI[of _ st]) simp
  next
    case False
    define st1 where "st1 =
        (case (slotNode st slot, nodePool st, Option.bind (array_get ?cs (int slot)) (\<lambda>c. c)) of
           (Some n, Some pools, Some c) \<Rightarrow> if c \<ge> 0 then pool_put pools (Some n) c st else st
         | _ \<Rightarrow> st)"
    have run: "\<And>R nd. layoutSingleSlotWith R cfg nd idx slot st =
        (case nodePool st1 of
           None \<Rightarrow> Inr st1
         | Some pools \<Rightarrow>
             (case pool_get cfg pools ?t st1 of
                (None, st2) \<Rightarrow> Inr st2
              | (Some n, st2) \<Rightarrow>
                  layoutDynamicNode R cfg n idx
                    ((setNode n (\<lambda>a. a\<lparr>nodeParent := True\<rparr>) st2)
                       \<lparr>slotNodes := array_set (slotNodes st2) slot (Some n),
                        slotPrefabIndices := array_set (slotPrefabIndices st2) slot (Some ?t)\<rparr>)))"
    proof -
      have cond: "(if Option.bind (array_get ?cs (int slot)) (\<lambda>c. c) = Some ?t
                   then slotNode st slot else None) = None"
        using False sn cur by auto
      show "\<And>R nd. layoutSingleSlotWith R cfg nd idx slot st =
        (case nodePool st1 of
           None \<Rightarrow> Inr st1
         | Some pools \<Rightarrow>
             (case pool_get cfg pools ?t st1 of
                (None, st2) \<Rightarrow> Inr st2
              | (Some n, st2) \<Rightarrow>
                  layoutDynamicNode R cfg n idx
                    ((setNode n (\<lambda>a. a\<lparr>nodeParent := True\<rparr>) st2)
                       \<lparr>slotNodes := array_set (slotNodes st2) slot (Some n),
                        slotPrefabIndices := array_set (slotPrefabIndices st2) slot (Some ?t)\<rparr>)))"
        unfolding layoutSingleSlotWith_def st1_def Let_def cond using vl dyn by simp
    qed
    have put: "\<exists>pools1. nodePool st1 = Some pools1 \<and>
        poolsOk cfg pools1 (?xs[slot := None]) ?cs ?nn \<and> pools1 ?t \<noteq> None \<and>
        slotNodes st1 = ?xs \<and> slotPrefabIndices st1 = ?cs \<and> nextNode st1 = ?nn \<and>
        itemSizes st1 = itemSizes st \<and> prefixPositions st1 = prefixPositions st \<and>
        slotFirstIndex st1 = slotFirstIndex st \<and> sizeTable st1 = sizeTable st \<and>
        (\<forall>k. ?xs ! slot \<noteq> Some k \<longrightarrow> nodes st1 k = nodes st k)"
    proof (cases "?xs ! slot")
      case None
      then have "st1 = st" unfolding st1_def using sn by simp
      then show ?thesis using np poolsOk_drop[OF pk sx(1)] p by simp
    next
      case (Some n)
      have "zip ?xs ?cs ! slot = (Some n, ?cs ! slot)" "slot < length (zip ?xs ?cs)"
        using sx Some by simp_all
      then have "(Some n, ?cs ! slot) \<in> set (zip ?xs ?cs)" using nth_mem by metis
      from d(8)[OF this] obtain c pc where c: "?cs ! slot = Some c" "pools c = Some pc" by auto
      have ne: "c \<noteq> ?t" using False Some c by simp
      show ?thesis
      proof (cases "0 \<le> c")
        case True
        have "st1 = (setNode n (\<lambda>a. a\<lparr>nodeActive := False, nodeParent := False\<rparr>) st)
                      \<lparr>nodePool := Some (pools(c \<mapsto> pc @ [n]))\<rparr>"
          unfolding st1_def using sn cur Some c np True by (simp add: pool_put_def)
        then show ?thesis
          using poolsOk_put[OF pk sx(1) Some c] p ne Some by (simp add: setNode_def sizeTable_def)
      next
        case False
        then have "st1 = st" unfolding st1_def using sn cur Some c np by simp
        then show ?thesis using np poolsOk_drop[OF pk sx(1)] p by simp
      qed
    qed
    then obtain pools1 where np1: "nodePool st1 = Some pools1"
      and pk1: "poolsOk cfg pools1 (?xs[slot := None]) ?cs ?nn" and pt: "pools1 ?t \<noteq> None"
      and f1: "slotNodes st1 = ?xs" "slotPrefabIndices st1 = ?cs" "nextNode st1 = ?nn"
        "itemSizes st1 = itemSizes st" "prefixPositions st1 = prefixPositions st"
        "slotFirstIndex st1 = slotFirstIndex st" "sizeTable st1 = sizeTable st"
      and n1: "\<And>k. ?xs ! slot \<noteq> Some k \<Longrightarrow> nodes st1 k = nodes st k"
      by blast
    from pt obtain q where q: "pools1 ?t = Some q" by auto
    have sx1: "slot < length (?xs[slot := None])" using sx by simp
    have ow: "\<And>v. ?xs[slot := None, slot := v] = ?xs[slot := v]" by simp
    have aset: "\<And>v. array_set ?xs slot v = ?xs[slot := v]"
      "\<And>v. array_set ?cs slot v = ?cs[slot := v]"
      using sx by (simp_all add: array_set_def)
    show ?thesis
    proof (cases "q = []")
      case True
      define S where "S = (setNode ?nn (\<lambda>a. a\<lparr>nodeParent := True\<rparr>)
            (st1\<lparr>nodes := (nodes st1)(?nn := freshNode cfg ?t), nextNode := ?nn + 1\<rparr>))
          \<lparr>slotNodes := ?xs[slot := Some ?nn], slotPrefabIndices := ?cs[slot := Some ?t]\<rparr>"
      have r: "\<forall>R nd. layoutSingleSlotWith R cfg nd idx slot st =
                       layoutDynamicNode R cfg ?nn idx S"
        unfolding run S_def using np1 q True f1 aset by (simp add: pool_get_def)
      have "poolsOk cfg pools1 (?xs[slot := Some ?nn]) (?cs[slot := Some ?t]) (Suc ?nn)"
        using poolsOk_fresh[OF pk1 sx1 q slot_bound[OF pk1]] ow by simp
      then have okS: "dynOk cfg A S"
        using vl dyn len ss np1 f1(1-6) unfolding dynOk_def S_def sizesSettled_def
        by (simp add: setNode_def)
      show ?thesis
        using r okS n1 f1(1-6) f1(7)[unfolded sizeTable_def]
        by (intro exI[of _ ?nn] exI[of _ S]) (simp add: setNode_def S_def sizeTable_def)
    next
      case False
      define S where "S = (setNode (last q) (\<lambda>a. a\<lparr>nodeParent := True\<rparr>)
            (setNode (last q) (\<lambda>a. a\<lparr>nodeActive := True\<rparr>)
               (st1\<lparr>nodePool := Some (pools1(?t \<mapsto> butlast q))\<rparr>)))
          \<lparr>slotNodes := ?xs[slot := Some (last q)], slotPrefabIndices := ?cs[slot := Some ?t]\<rparr>"
      have r: "\<forall>R nd. layoutSingleSlotWith R cfg nd idx slot st =
                       layoutDynamicNode R cfg (last q) idx S"
        unfolding run S_def using np1 q False f1 aset by (simp add: pool_get_def)
      have "poolsOk cfg (pools1(?t \<mapsto> butlast q)) (?xs[slot := Some (last q)])
              (?cs[slot := Some ?t]) ?nn"
        using poolsOk_pop[OF pk1 sx1 q False] ow by simp
      then have okS: "dynOk cfg A S"
        using vl dyn len ss np1 f1(1-6) unfolding dynOk_def S_def sizesSettled_def
        by (simp add: setNode_def)
      show ?thesis
        using r okS n1 f1(1-6) f1(7)[unfolded sizeTable_def]
        by (intro exI[of _ "last q"] exI[of _ S]) (simp add: setNode_def S_def sizeTable_def)
    qed
  qed
qed


lemma dynOk_uniq:
  assumes ok: "dynOk cfg A st" and s: "s < slots cfg" "s' < slots cfg"
    and e: "slotNodes st ! s = Some n" "slotNodes st ! s' = Some n"
  shows "s = s'"
proof -
  from ok obtain pools where len: "length (slotNodes st) = slots cfg"
    and pk: "poolsOk cfg pools (slotNodes st) (slotPrefabIndices st) (nextNode st)"
    unfolding dynOk_def by (auto split: option.splits)
  from uniq_slot[OF poolsOkD(7)[OF pk, of n], of s s'] s e len show ?thesis by simp
qed

lemma dynOk_length: "dynOk cfg A st \<Longrightarrow> length (slotNodes st) = slots cfg"
  unfolding dynOk_def by simp

lemma dyn_bind:
  assumes ok: "dynOk cfg A st" and sl: "slot < slots cfg" and nn: "0 \<le> idx" and inA: "idx \<in> A"
  shows "\<exists>st'. (\<forall>R. bindOrHide R cfg idx slot st = Inr st') \<and> dynOk cfg A st' \<and>
           sizeTable st' = sizeTable st \<and> slotFirstIndex st' = slotFirstIndex st \<and>
           shownItem st' slot = (if idx < totalCount cfg then Some idx else None) \<and>
           (\<forall>s'<slots cfg. s' \<noteq> slot \<longrightarrow> shownItem st' s' = shownItem st s')"
proof (cases "idx < totalCount cfg")
  case True
  from dyn_acquire[OF ok sl nn True] obtain m S where
    r: "\<And>R nd. layoutSingleSlotWith R cfg nd idx slot st = layoutDynamicNode R cfg m idx S"
    and okS: "dynOk cfg A S" and fS: "slotFirstIndex S = slotFirstIndex st"
    and tS: "sizeTable S = sizeTable st"
    and xsS: "slotNodes S = (slotNodes st)[slot := Some m]"
    and nS: "\<And>k. k \<noteq> m \<Longrightarrow> slotNodes st ! slot \<noteq> Some k \<Longrightarrow> nodes S k = nodes st k"
    by blast
  from okS have vl: "useVirtualList cfg" and ssS: "sizesSettled cfg A S"
    unfolding dynOk_def by simp_all
  from dyn_layoutNode[OF vl ssS nn True inA, of m] obtain st' where
    run: "\<And>R. layoutDynamicNode R cfg m idx S = Inr st'"
    and f': "slotNodes st' = slotNodes S" "slotPrefabIndices st' = slotPrefabIndices S"
      "nodePool st' = nodePool S" "nextNode st' = nextNode S" "itemSizes st' = itemSizes S"
      "prefixPositions st' = prefixPositions S" "slotFirstIndex st' = slotFirstIndex S"
      "sizeTable st' = sizeTable S"
    and n': "\<And>k. k \<noteq> m \<Longrightarrow> nodes st' k = nodes S k"
    and m': "nodeActive (nodes st' m)" "nodeDataIndex (nodes st' m) = idx"
    by blast
  have ok': "dynOk cfg A st'" using dynOk_cong[OF f'(1-6), of cfg A] okS by simp
  have len: "length (slotNodes st) = slots cfg" using dynOk_length[OF ok] .
  have b: "\<forall>R. bindOrHide R cfg idx slot st = Inr st'"
    unfolding bindOrHide_def using True r run by simp
  have at: "slotNodes st' ! slot = Some m" using f'(1) xsS sl len by simp
  have here: "shownItem st' slot = Some idx"
    using shownItem_nth[of slot st'] f'(1) xsS sl len at m' by simp
  have others: "\<forall>s'<slots cfg. s' \<noteq> slot \<longrightarrow> shownItem st' s' = shownItem st s'"
  proof (intro allI impI)
    fix s' assume a: "s' < slots cfg" "s' \<noteq> slot"
    have same: "slotNodes st' ! s' = slotNodes st ! s'" using f'(1) xsS a by simp
    show "shownItem st' s' = shownItem st s'"
    proof (cases "slotNodes st ! s'")
      case None
      then show ?thesis
        using shownItem_nth[of s' st'] shownItem_nth[of s' st] a len f'(1) xsS same by simp
    next
      case (Some k)
      have "k \<noteq> m"
      proof
        assume "k = m"
        with Some same have "slotNodes st' ! s' = Some m" by simp
        from dynOk_uniq[OF ok' a(1) sl this at] a(2) show False by simp
      qed
      moreover have "slotNodes st ! slot \<noteq> Some k"
      proof
        assume "slotNodes st ! slot = Some k"
        from dynOk_uniq[OF ok a(1) sl Some this] a(2) show False by simp
      qed
      ultimately have "nodes st' k = nodes st k" using n'[of k] nS[of k] by simp
      then show ?thesis
        using shownItem_nth[of s' st'] shownItem_nth[of s' st] a len f'(1) xsS same Some by simp
    qed
  qed
  show ?thesis using b ok' f'(7,8) fS tS here others True by (intro exI[of _ st']) simp
next
  case False
  define st' where "st' = deactivate (slotNode st slot) st"
  have len: "length (slotNodes st) = slots cfg" using dynOk_length[OF ok] .
  have b: "\<forall>R. bindOrHide R cfg idx slot st = Inr st'"
    unfolding bindOrHide_def st'_def using False by simp
  have f': "slotNodes st' = slotNodes st" "slotPrefabIndices st' = slotPrefabIndices st"
      "nodePool st' = nodePool st" "nextNode st' = nextNode st" "itemSizes st' = itemSizes st"
      "prefixPositions st' = prefixPositions st" "slotFirstIndex st' = slotFirstIndex st"
      "sizeTable st' = sizeTable st"
    unfolding st'_def deactivate_def
    by (simp_all add: setNode_def sizeTable_def split: option.splits)
  have ok': "dynOk cfg A st'" using dynOk_cong[OF f'(1-6), of cfg A] ok by simp
  have sn: "slotNode st slot = slotNodes st ! slot" using slotNode_nth sl len by simp
  have here: "shownItem st' slot = None"
    using shownItem_nth[of slot st'] f'(1) sl len sn unfolding st'_def deactivate_def
    by (simp add: setNode_def split: option.splits)
  have others: "\<forall>s'<slots cfg. s' \<noteq> slot \<longrightarrow> shownItem st' s' = shownItem st s'"
  proof (intro allI impI)
    fix s' assume a: "s' < slots cfg" "s' \<noteq> slot"
    show "shownItem st' s' = shownItem st s'"
    proof (cases "slotNodes st ! s'")
      case None
      then show ?thesis
        using shownItem_nth[of s' st'] shownItem_nth[of s' st] a len f'(1) by simp
    next
      case (Some k)
      have "slotNodes st ! slot \<noteq> Some k"
      proof
        assume "slotNodes st ! slot = Some k"
        from dynOk_uniq[OF ok a(1) sl Some this] a(2) show False by simp
      qed
      then have "nodes st' k = nodes st k"
        unfolding st'_def deactivate_def using sn by (simp add: setNode_def split: option.splits)
      then show ?thesis
        using shownItem_nth[of s' st'] shownItem_nth[of s' st] a len f'(1) Some by simp
    qed
  qed
  show ?thesis using b ok' f'(7,8) here others False by (intro exI[of _ st']) simp
qed

lemma dyn_bindsSlots: "bindsSlots cfg A (dynOk cfg A)"
  unfolding bindsSlots_def using dyn_bind by blast

lemma fixed_bindsSlots: "bindsSlots cfg A (fixedOk cfg)"
  unfolding bindsSlots_def using fixed_bind by blast

lemma moveSlots_Nil [simp]: "moveSlots d [] = []"
  by (simp add: moveSlots_def splice_def)

lemma dynOk_rotateWindow:
  assumes ok: "dynOk cfg A st"
  shows "dynOk cfg A (rotateWindow cfg d F st)"
proof -
  from ok obtain pools where c: "useVirtualList cfg" "useDynamicSize cfg"
    and len: "length (slotNodes st) = slots cfg" and ss: "sizesSettled cfg A st"
    and np: "nodePool st = Some pools"
    and pk: "poolsOk cfg pools (slotNodes st) (slotPrefabIndices st) (nextNode st)"
    unfolding dynOk_def by (auto split: option.splits)
  have l: "length (slotPrefabIndices st) = length (slotNodes st)" using poolsOkD(1)[OF pk] .
  have sp: "slotPrefabIndices (rotateWindow cfg d F st) = moveSlots d (slotPrefabIndices st)"
    using c by (cases "slotPrefabIndices st") (simp_all add: rotateWindow_def Let_def)
  have f: "nodePool (rotateWindow cfg d F st) = nodePool st"
    "nextNode (rotateWindow cfg d F st) = nextNode st"
    "itemSizes (rotateWindow cfg d F st) = itemSizes st"
    "prefixPositions (rotateWindow cfg d F st) = prefixPositions st"
    by (simp_all add: rotateWindow_def Let_def)
  show ?thesis
    unfolding dynOk_def sizesSettled_def f sp slotNodes_rotateWindow
    using c len ss np poolsOk_rotate[OF pk, of d] unfolding sizesSettled_def by simp
qed

lemma dynOk_setFirst: "dynOk cfg A (st\<lparr>slotFirstIndex := F\<rparr>) = dynOk cfg A st"
  by (rule dynOk_cong) simp_all


lemma reconcile_generic:
  assumes step: "bindsSlots cfg A Inv"
    and len: "\<And>s. Inv s \<Longrightarrow> length (slotNodes s) = slots cfg"
    and setF: "\<And>s F. Inv s \<Longrightarrow> Inv (s\<lparr>slotFirstIndex := F\<rparr>)"
    and rot: "\<And>s d F. Inv s \<Longrightarrow> Inv (rotateWindow cfg d F s)"
    and vl: "useVirtualList cfg"
    and inv: "Inv st" and nf: "0 \<le> newFirst"
    and wA: "\<And>s. s < slots cfg \<Longrightarrow> newFirst + int s \<in> A"
  shows "\<exists>st'. (\<forall>R. reconcileWith R cfg newFirst force st = Inr st') \<and> Inv st' \<and>
           slotFirstIndex st' = newFirst \<and>
           (windowShows cfg st (slotFirstIndex st) \<or> force \<or>
              int (slots cfg) \<le> \<bar>newFirst - slotFirstIndex st\<bar>
            \<longrightarrow> windowShows cfg st' newFirst)"
proof -
  define diff where "diff = newFirst - slotFirstIndex st"
  have fullpath: "\<exists>st'. (\<forall>R. layoutSlotsWith R cfg newFirst (st\<lparr>slotFirstIndex := newFirst\<rparr>) = Inr st') \<and>
      Inv st' \<and> slotFirstIndex st' = newFirst \<and> windowShows cfg st' newFirst"
  proof -
    have "\<exists>st'. (\<forall>R. forEach [0 ..< slots cfg]
            (\<lambda>i s. bindOrHide R cfg ((\<lambda>_. newFirst) s + int ((\<lambda>i. i) i)) ((\<lambda>i. i) i) s)
            (st\<lparr>slotFirstIndex := newFirst\<rparr>) = Inr st') \<and>
       Inv st' \<and> slotFirstIndex st' = newFirst \<and>
       (\<forall>i\<in>set [0 ..< slots cfg]. shownItem st' ((\<lambda>i. i) i) = expectedItem cfg newFirst ((\<lambda>i. i) i)) \<and>
       (\<forall>s<slots cfg. s \<notin> (\<lambda>i. i) ` set [0 ..< slots cfg] \<longrightarrow>
            shownItem st' s = shownItem (st\<lparr>slotFirstIndex := newFirst\<rparr>) s)"
      by (rule loop_binds[OF step _ nf setF[OF inv]]) (simp_all add: wA)
    then show ?thesis
      using vl by (auto simp: layoutSlotsWith_def windowShows_def)
  qed
  show ?thesis
  proof (cases "diff = 0 \<and> \<not> force")
    case True
    then have r: "\<forall>R. reconcileWith R cfg newFirst force st = Inr st"
      unfolding reconcileWith_def Let_def diff_def by simp
    have f: "slotFirstIndex st = newFirst" using True unfolding diff_def by simp
    have w: "windowShows cfg st (slotFirstIndex st) \<or> force \<or>
              int (slots cfg) \<le> \<bar>newFirst - slotFirstIndex st\<bar>
            \<longrightarrow> windowShows cfg st newFirst"
      using True f unfolding windowShows_def by auto
    show ?thesis using r inv f w by (intro exI[of _ st]) simp
  next
    case nontrivial: False
    show ?thesis
    proof (cases "force \<or> \<bar>diff\<bar> \<ge> int (slots cfg)")
      case True
      with nontrivial have "\<forall>R. reconcileWith R cfg newFirst force st =
          layoutSlotsWith R cfg newFirst (st\<lparr>slotFirstIndex := newFirst\<rparr>)"
        unfolding reconcileWith_def Let_def diff_def by auto
      with fullpath show ?thesis by auto
    next
      case False
      then have nforce: "\<not> force" and small: "\<bar>diff\<bar> < int (slots cfg)" by auto
      from nontrivial nforce have nz: "diff \<noteq> 0" by simp
      define d where "d = nat \<bar>diff\<bar>"
      have dpos: "0 < d" "d < slots cfg" using nz small unfolding d_def by auto
      define f where "f = (\<lambda>i. if 0 < diff then slots cfg - d + i else i)"
      define st3 where "st3 = rotateWindow cfg diff newFirst st"
      have inv3: "Inv st3" unfolding st3_def by (rule rot[OF inv])
      have f3: "slotFirstIndex st3 = newFirst" unfolding st3_def by simp
      have inj: "distinct (map f [0 ..< d])"
        unfolding f_def by (auto simp: distinct_map inj_on_def)
      have rng0: "\<forall>i\<in>set [0 ..< d]. f i < slots cfg"
        unfolding f_def using dpos by auto
      then have rng: "\<forall>i\<in>set [0 ..< d]. f i < slots cfg \<and> newFirst + int (f i) \<in> A"
        using wA by blast
      have "\<exists>st'. (\<forall>R. forEach [0 ..< d]
              (\<lambda>i s. bindOrHide R cfg (slotFirstIndex s + int (f i)) (f i) s) st3 = Inr st') \<and>
         Inv st' \<and> slotFirstIndex st' = newFirst \<and>
         (\<forall>i\<in>set [0 ..< d]. shownItem st' (f i) = expectedItem cfg newFirst (f i)) \<and>
         (\<forall>s<slots cfg. s \<notin> f ` set [0 ..< d] \<longrightarrow> shownItem st' s = shownItem st3 s)"
        by (rule loop_binds[OF step _ nf inv3 f3 inj rng]) simp
      then obtain st' where
        run: "\<And>R. forEach [0 ..< d] (\<lambda>i s. bindOrHide R cfg (slotFirstIndex s + int (f i)) (f i) s) st3
               = Inr st'"
        and inv': "Inv st'" and f': "slotFirstIndex st' = newFirst"
        and new: "\<forall>i\<in>set [0 ..< d]. shownItem st' (f i) = expectedItem cfg newFirst (f i)"
        and old: "\<forall>s<slots cfg. s \<notin> f ` set [0 ..< d] \<longrightarrow> shownItem st' s = shownItem st3 s"
        by blast
      have rec: "\<forall>R. reconcileWith R cfg newFirst force st = Inr st'"
        using run nforce nz small
        unfolding reconcileWith_def Let_def diff_def[symmetric] d_def[symmetric] f_def st3_def
        by simp
      have ln: "length (slotNodes st) = slots cfg" by (rule len[OF inv])
      have ws: "windowShows cfg st' newFirst" if win: "windowShows cfg st (slotFirstIndex st)"
        unfolding windowShows_def
      proof (intro allI impI)
        fix s assume s: "s < slots cfg"
        show "shownItem st' s = expectedItem cfg newFirst s"
        proof (cases "s \<in> f ` set [0 ..< d]")
          case True
          with new show ?thesis by auto
        next
          case False
          with old s have e: "shownItem st' s = shownItem st3 s" by blast
          show ?thesis
          proof (cases "0 < diff")
            case True
            have nd: "nat diff = d" using True unfolding d_def by simp
            have "s < slots cfg - d"
            proof (rule ccontr)
              assume "\<not> s < slots cfg - d"
              then have "s = f (s - (slots cfg - d))" "s - (slots cfg - d) < d"
                using True s dpos unfolding f_def by auto
              with False show False by auto
            qed
            then have sd: "s + d < slots cfg" by simp
            have "moveSlots diff (slotNodes st) ! s = slotNodes st ! (s + d)"
              using moveSlots_nth_pos[OF True, of s "slotNodes st"] sd ln nd by simp
            then have "shownItem st3 s = shownItem st (s + d)"
              unfolding st3_def using shownItem_rotateWindow[of s st cfg diff newFirst]
                shownItem_nth[of "s + d" st] s sd ln by simp
            also have "\<dots> = expectedItem cfg (slotFirstIndex st) (s + d)"
              using win sd unfolding windowShows_def by simp
            also have "\<dots> = expectedItem cfg newFirst s"
              using True nd unfolding expectedItem_def diff_def by (simp add: nat_eq_iff)
            finally show ?thesis using e by simp
          next
            case neg: False
            with nz have lt: "diff < 0" by simp
            have nd: "nat (- diff) = d" using lt unfolding d_def by simp
            have ds: "d \<le> s"
            proof (rule ccontr)
              assume "\<not> d \<le> s"
              then have "s = f s" "s < d" using neg unfolding f_def by auto
              with False show False by auto
            qed
            have "moveSlots diff (slotNodes st) ! s = slotNodes st ! (s - d)"
              using moveSlots_nth_neg[OF lt, of "slotNodes st" s] ds s ln nd dpos by simp
            then have "shownItem st3 s = shownItem st (s - d)"
              unfolding st3_def using shownItem_rotateWindow[of s st cfg diff newFirst]
                shownItem_nth[of "s - d" st] s ln by simp
            also have "\<dots> = expectedItem cfg (slotFirstIndex st) (s - d)"
              using win s unfolding windowShows_def by simp
            also have "\<dots> = expectedItem cfg newFirst s"
              using lt nd ds unfolding expectedItem_def diff_def by (simp add: nat_eq_iff of_nat_diff)
            finally show ?thesis using e by simp
          qed
        qed
      qed
      have w: "windowShows cfg st (slotFirstIndex st) \<or> force \<or>
              int (slots cfg) \<le> \<bar>newFirst - slotFirstIndex st\<bar>
            \<longrightarrow> windowShows cfg st' newFirst"
        using ws nforce small unfolding diff_def by auto
      show ?thesis using rec inv' f' w by blast
    qed
  qed
qed


lemma bsearch_returns:
  assumes "length ps < 2 ^ 30"
  shows "0 \<le> l \<Longrightarrow> r < int (length ps) \<Longrightarrow> \<exists>k. bsearch ps pos l r ans = Some k"
proof (induction "nat (r - l + 1)" arbitrary: l r ans rule: less_induct)
  case less
  show ?case
  proof (cases "l \<le> r")
    case False
    then have "bsearch ps pos l r ans = Some ans" by (subst bsearch.simps) simp
    then show ?thesis by simp
  next
    case True
    define m where "m = (l + r) div 2"
    have lr: "0 \<le> l + r" "l + r < 2 ^ 31"
      using less.prems True assms by auto
    have sm: "sar1 (l + r) = m" unfolding m_def by (rule sar1_half[OF lr])
    have mb: "l \<le> m" "m \<le> r" using True unfolding m_def by auto
    have mi: "0 \<le> m" "m < int (length ps)" using mb less.prems by auto
    have get: "array_get ps m = Some (ps ! nat m)" by (rule array_get_nth[OF mi])
    show ?thesis
    proof (cases "ps ! nat m > pos")
      case gt: True
      have step: "bsearch ps pos l r ans = bsearch ps pos l (m - 1) m"
        using True gt by (subst bsearch.simps) (simp add: sm get)
      have "\<exists>k. bsearch ps pos l (m - 1) m = Some k"
        using mb mi less.prems by (intro less.hyps) auto
      then show ?thesis by (simp add: step)
    next
      case le: False
      have step: "bsearch ps pos l r ans = bsearch ps pos (m + 1) r ans"
        using True le by (subst bsearch.simps) (simp add: sm get)
      have "\<exists>k. bsearch ps pos (m + 1) r ans = Some k"
        using mb mi less.prems by (intro less.hyps) auto
      then show ?thesis by (simp add: step)
    qed
  qed
qed

lemma calcVisibleRange_returns:
  assumes "length ps < 2 ^ 30"
  shows "\<exists>rng. calcVisibleRange cfg ps pos = Some rng"
proof -
  obtain k where "bsearch ps pos 0 (int (length ps) - 1) (int (length ps)) = Some k"
    using bsearch_returns[OF assms, of 0 "int (length ps) - 1" pos "int (length ps)"] by auto
  then show ?thesis
    by (simp add: calcVisibleRange_def posToFirstIndex_def Let_def)
qed

lemma newFirstIndex_nonneg:
  assumes "newFirstIndex cfg st = Inr F"
  shows "0 \<le> F"
  using assms
  by (auto simp: newFirstIndex_def firstFixed_def calcVisibleRange_def Let_def clamp_def
        split: if_splits option.splits)

lemma dyn_newFirstIndex:
  assumes "useDynamicSize cfg" "length (prefixPositions st) < 2 ^ 30"
  shows "\<exists>F. newFirstIndex cfg st = Inr F"
proof -
  obtain rng where "calcVisibleRange cfg (prefixPositions st)
      (if isVertical cfg then clamp (contentPos st) 0 (contentSize st)
       else clamp (- contentPos st) 0 (contentSize st)) = Some rng"
    using calcVisibleRange_returns[OF assms(2)] by blast
  then show ?thesis
    using assms(1) by (simp add: newFirstIndex_def Let_def)
qed

lemma sizeTable_rotateWindow [simp]: "sizeTable (rotateWindow cfg d F st) = sizeTable st"
  by (simp add: sizeTable_def rotateWindow_def Let_def)

lemma sizeTable_setFirst [simp]: "sizeTable (st\<lparr>slotFirstIndex := F\<rparr>) = sizeTable st"
  by (simp add: sizeTable_def)

lemma windowItems_slot: "s < slots cfg \<Longrightarrow> F + int s \<in> windowItems cfg F"
  by (simp add: windowItems_def)

lemma dyn_reconcile:
  assumes ok: "dynOk cfg (windowItems cfg F) st" and nf: "0 \<le> F"
  shows "\<exists>st'. (\<forall>R. reconcileWith R cfg F force st = Inr st') \<and>
           dynOk cfg (windowItems cfg F) st' \<and> sizeTable st' = sizeTable st \<and>
           slotFirstIndex st' = F \<and>
           (windowShows cfg st (slotFirstIndex st) \<or> force \<or>
              int (slots cfg) \<le> \<bar>F - slotFirstIndex st\<bar>
            \<longrightarrow> windowShows cfg st' F)"
proof -
  let ?A = "windowItems cfg F"
  define Inv where "Inv = (\<lambda>s. dynOk cfg ?A s \<and> sizeTable s = sizeTable st)"
  have step: "bindsSlots cfg ?A Inv"
    unfolding bindsSlots_def Inv_def using dyn_bind[of cfg ?A] by metis
  have len: "\<And>s. Inv s \<Longrightarrow> length (slotNodes s) = slots cfg"
    unfolding Inv_def using dynOk_length by blast
  have setF: "\<And>s F. Inv s \<Longrightarrow> Inv (s\<lparr>slotFirstIndex := F\<rparr>)"
    unfolding Inv_def by (simp add: dynOk_setFirst)
  have rot: "\<And>s d F. Inv s \<Longrightarrow> Inv (rotateWindow cfg d F s)"
    unfolding Inv_def by (simp add: dynOk_rotateWindow)
  have vl: "useVirtualList cfg" using ok unfolding dynOk_def by simp
  have inv: "Inv st" unfolding Inv_def using ok by simp
  from reconcile_generic[of cfg ?A Inv, OF step len setF rot vl inv nf windowItems_slot, of force]
  show ?thesis unfolding Inv_def by auto
qed

lemma dyn_updateVisible:
  assumes nfi: "newFirstIndex cfg st = Inr F" and ok: "dynOk cfg (windowItems cfg F) st"
  shows "\<exists>st'. (\<forall>fuel. updateVisible (Suc fuel) cfg force st = Inr st') \<and>
           dynOk cfg (windowItems cfg F) st' \<and> sizeTable st' = sizeTable st \<and>
           slotFirstIndex st' = F \<and>
           (windowShows cfg st (slotFirstIndex st) \<or> force \<or>
              int (slots cfg) \<le> \<bar>F - slotFirstIndex st\<bar>
            \<longrightarrow> windowShows cfg st' F)"
proof -
  have vl: "useVirtualList cfg" using ok unfolding dynOk_def by simp
  from dyn_reconcile[OF ok newFirstIndex_nonneg[OF nfi], of force]
  obtain st' where r: "\<And>R. reconcileWith R cfg F force st = Inr st'"
    and rest: "dynOk cfg (windowItems cfg F) st'" "sizeTable st' = sizeTable st"
      "slotFirstIndex st' = F"
      "windowShows cfg st (slotFirstIndex st) \<or> force \<or>
              int (slots cfg) \<le> \<bar>F - slotFirstIndex st\<bar>
            \<longrightarrow> windowShows cfg st' F"
    by blast
  have "\<forall>fuel. updateVisible (Suc fuel) cfg force st = Inr st'"
    using vl nfi r by (simp add: updateVisibleWith_def)
  with rest show ?thesis by blast
qed

text \<open>
  Where no size is corrected during the layout, the two paths agree. From a window in
  which slot \<open>s\<close> shows item \<open>slotFirstIndex + s\<close> (nothing past the last item), for a
  fixed-size list whose slots hold a node each, or a dynamic-size list whose pool fits its
  slots and whose recorded sizes of the items \<open>newFirstIndex, ..., newFirstIndex + S - 1\<close>
  are settled: the reconciliation returns on the path without \<open>force\<close> and on the path
  with \<open>force\<close>, without a re-entrant call; after either, the first index is
  \<open>newFirstIndex\<close> and slot \<open>s\<close> shows item \<open>newFirstIndex + s\<close> when that index is below
  \<open>totalCount\<close> and is inactive otherwise. The rotation keeps the multiset of the slot
  nodes, and so do both paths of a fixed-size list.
\<close>

lemma settled_paths_agree:
  assumes ok: "fixedOk cfg st \<or> dynOk cfg (windowItems cfg newFirst) st"
    and win: "windowShows cfg st (slotFirstIndex st)" and nf: "0 \<le> newFirst"
  shows "\<exists>a b. (\<forall>fuel. reconcile fuel cfg newFirst False st = Inr a) \<and>
           (\<forall>fuel. reconcile fuel cfg newFirst True st = Inr b) \<and>
           slotFirstIndex a = newFirst \<and> slotFirstIndex b = newFirst \<and>
           windowShows cfg a newFirst \<and> windowShows cfg b newFirst \<and>
           map (shownItem a) [0 ..< slots cfg] = map (shownItem b) [0 ..< slots cfg] \<and>
           (fixedOk cfg a \<or> dynOk cfg (windowItems cfg newFirst) a) \<and>
           (fixedOk cfg b \<or> dynOk cfg (windowItems cfg newFirst) b) \<and>
           (fixedOk cfg st \<longrightarrow>
              mset (slotNodes a) = mset (slotNodes st) \<and> mset (slotNodes b) = mset (slotNodes st)) \<and>
           mset (moveSlots (newFirst - slotFirstIndex st) (slotNodes st)) = mset (slotNodes st)"
proof -
  have both: "\<exists>st'. (\<forall>R. reconcileWith R cfg newFirst force st = Inr st') \<and>
      slotFirstIndex st' = newFirst \<and> windowShows cfg st' newFirst \<and>
      (fixedOk cfg st' \<or> dynOk cfg (windowItems cfg newFirst) st') \<and>
      (fixedOk cfg st \<longrightarrow> mset (slotNodes st') = mset (slotNodes st))" for force
  proof (cases "fixedOk cfg st")
    case True
    define Inv where "Inv = (\<lambda>s. fixedOk cfg s \<and> mset (slotNodes s) = mset (slotNodes st))"
    have step: "bindsSlots cfg UNIV Inv"
      unfolding bindsSlots_def Inv_def using fixed_bind[of cfg] by metis
    have len: "\<And>s. Inv s \<Longrightarrow> length (slotNodes s) = slots cfg"
      unfolding Inv_def fixedOk_def by simp
    have setF: "\<And>s F. Inv s \<Longrightarrow> Inv (s\<lparr>slotFirstIndex := F\<rparr>)"
      unfolding Inv_def fixedOk_def by simp
    have rot: "\<And>s d F. Inv s \<Longrightarrow> Inv (rotateWindow cfg d F s)"
      unfolding Inv_def fixedOk_def by simp
    have vl: "useVirtualList cfg" using True unfolding fixedOk_def by simp
    have inv: "Inv st" unfolding Inv_def using True by simp
    from reconcile_generic[of cfg UNIV Inv, OF step len setF rot vl inv nf, of force] win
    show ?thesis unfolding Inv_def by auto
  next
    case False
    with ok have d: "dynOk cfg (windowItems cfg newFirst) st" by simp
    from dyn_reconcile[OF d nf, of force] win False show ?thesis by auto
  qed
  from both[of False] obtain a where a: "\<And>R. reconcileWith R cfg newFirst False st = Inr a"
    "slotFirstIndex a = newFirst" "windowShows cfg a newFirst"
    "fixedOk cfg a \<or> dynOk cfg (windowItems cfg newFirst) a"
    "fixedOk cfg st \<longrightarrow> mset (slotNodes a) = mset (slotNodes st)" by blast
  from both[of True] obtain b where b: "\<And>R. reconcileWith R cfg newFirst True st = Inr b"
    "slotFirstIndex b = newFirst" "windowShows cfg b newFirst"
    "fixedOk cfg b \<or> dynOk cfg (windowItems cfg newFirst) b"
    "fixedOk cfg st \<longrightarrow> mset (slotNodes b) = mset (slotNodes st)" by blast
  have same: "map (shownItem a) [0 ..< slots cfg] = map (shownItem b) [0 ..< slots cfg]"
    using a(3) b(3) unfolding windowShows_def by simp
  show ?thesis
    using a b same unfolding reconcile_def by (intro exI[of _ a] exI[of _ b]) simp
qed

lemma fixedOk_stWin: "fixedOk cfg0 stWin"
  by (simp add: fixedOk_def cfg0_def stWin_def st0_def)

lemma upt_3: "[0 ..< 3] = [0, 1, 2]"
  by (simp add: upt_rec)

lemma all_less_3: "(\<forall>s<3::nat. P s) = (P 0 \<and> P 1 \<and> P 2)"
  by (metis One_nat_def less_2_cases_iff less_Suc_eq numeral_2_eq_2 numeral_3_eq_3 zero_less_Suc lessI)

lemma windowShows_stWin: "windowShows cfg0 stWin (slotFirstIndex stWin)"
  by (simp add: windowShows_def all_less_3 shownItem_def slotNode_def array_get_def
        expectedItem_def cfg0_def stWin_def st0_def node0_def)

lemma settled_paths_agree_example:
  "\<exists>a b. reconcile 0 cfg0 1 False stWin = Inr a \<and> reconcile 0 cfg0 1 True stWin = Inr b \<and>
     slotNodes a = [Some 1, Some 2, Some 0] \<and> slotNodes b = [Some 0, Some 1, Some 2] \<and>
     map (shownItem a) [0 ..< 3] = [Some 1, Some 2, Some 3] \<and>
     map (shownItem b) [0 ..< 3] = [Some 1, Some 2, Some 3]"
proof -
  from settled_paths_agree[OF disjI1[OF fixedOk_stWin] windowShows_stWin, of 1]
  obtain a b where r: "reconcile 0 cfg0 1 False stWin = Inr a" "reconcile 0 cfg0 1 True stWin = Inr b"
    and w: "windowShows cfg0 a 1" "windowShows cfg0 b 1" by auto
  have sl: "slots cfg0 = 3" "totalCount cfg0 = 50" by (simp_all add: cfg0_def)
  have sa: "map (shownItem a) [0 ..< 3] = [Some 1, Some 2, Some 3]"
    using w(1) by (simp add: windowShows_def sl all_less_3 upt_3 expectedItem_def)
  have sb: "map (shownItem b) [0 ..< 3] = [Some 1, Some 2, Some 3]"
    using w(2) by (simp add: windowShows_def sl all_less_3 upt_3 expectedItem_def)
  have ea: "case reconcile 0 cfg0 1 False stWin of Inr a \<Rightarrow> slotNodes a = [Some 1, Some 2, Some 0]
            | Inl e \<Rightarrow> False"
    unfolding reconcile_def
    by (simp add: cfg0_def stWin_def st0_def node0_def layout_eval array_get_def js_rem_def)
  have eb: "case reconcile 0 cfg0 1 True stWin of Inr b \<Rightarrow> slotNodes b = [Some 0, Some 1, Some 2]
            | Inl e \<Rightarrow> False"
    unfolding reconcile_def
    by (simp add: cfg0_def stWin_def st0_def node0_def layout_eval array_get_def js_rem_def)
  from ea eb r have "slotNodes a = [Some 1, Some 2, Some 0]" "slotNodes b = [Some 0, Some 1, Some 2]"
    by simp_all
  with r sa sb show ?thesis by (intro exI[of _ a] exI[of _ b]) simp
qed

lemma upt_2: "[0 ..< 2] = [0, 1]"
  by (simp add: upt_rec)

text \<open>
  C3. The incremental path of \<open>_updateVisible\<close> and the path with \<open>force\<close> are to end
  with the same assignment of items to slots, slot \<open>s\<close> showing the item \<open>s\<close> places
  after the first index. On the list below they do not: from the same window, the path
  without \<open>force\<close> ends showing items 3 and 4, the path with \<open>force\<close> ends showing item 3
  in both slots.

  A size corrected during the layout separates the two paths. Five items are recorded
  with size 50, but item 2 renders with height 10; the two slots show items 3 and 4 and
  the content position has become 120, for which \<open>_updateVisible\<close> computes the first
  index 2.

  Without \<open>force\<close> the window is rotated and item 2 is bound to slot 0; its size is
  corrected, and the nested \<open>_updateVisible(true)\<close> finds the first index 3 and lays out
  items 3 and 4; the loop of the incremental path, which reads \<open>_slotFirstIndex\<close> again,
  has nothing left to do.

  With \<open>force\<close>, \<open>_layoutSlots(2)\<close> binds item 2 to slot 0 and the same correction lays
  out items 3 and 4; then the loop of \<open>_layoutSlots\<close> goes on with the \<open>firstIndex = 2\<close> it
  was called with and binds item \<open>2 + 1\<close> to slot 1: both slots show item 3 and no slot
  shows item 4, although \<open>_slotFirstIndex\<close> is 3.
\<close>

theorem forced_layout_repeats_item:
  "slotFirstIndex stF = 3 \<and> map (shownItem stF) [0 ..< slots cfgF] = [Some 3, Some 4] \<and>
   newFirstIndex cfgF stF = Inr 2 \<and>
   (case updateVisible 2 cfgF False stF of
      Inr a \<Rightarrow> slotFirstIndex a = 3 \<and> map (shownItem a) [0 ..< slots cfgF] = [Some 3, Some 4]
    | Inl e \<Rightarrow> False) \<and>
   (case updateVisible 2 cfgF True stF of
      Inr b \<Rightarrow> slotFirstIndex b = 3 \<and> map (shownItem b) [0 ..< slots cfgF] = [Some 3, Some 3]
    | Inl e \<Rightarrow> False)"
  unfolding stF_def
  by (simp add: cfgF_def cfg0_def st0_def node0_def layout_eval search_eval sar1_def ToInt32_def
        updateVisible_numeral shownItem_def)

section \<open>The example lists and the invariants\<close>

lemma stPull_facts:
  "isTouching stPull" "enablePullRefresh cfg0" "\<not> isRefreshing stPull"
  "isVertical cfg0" "boundsMin stPull = 0" "boundsMax stPull = 5092"
  "pullRefreshMaxOffset cfg0 = 150" "pullDampingRate cfg0 = 1 / 2" "contentPos stPull = - 100"
  "pullRefreshThreshold cfg0 = 100" "useVirtualList cfg0" "\<not> useDynamicSize cfg0"
  "gridCount cfg0 \<noteq> 0" "itemMainSize cfg0 + spacing cfg0 \<noteq> 0" "pixelAlign cfg0"
  "velSamples stPull = []" "velocityWindow cfg0 = 8 / 100"
  by (simp_all add: stPull_def st0_def cfg0_def isVertical_def)

lemma stH_fields:
  "slotNodes stH = [Some 0, Some 1]" "slotPrefabIndices stH = [Some 0, Some 0]"
  "nodePool stH = Some (\<lambda>ty. if ty = 0 \<or> ty = 1 then Some [] else None)"
  "nextNode stH = 2" "itemSizes stH = [50, 50, 50, 50]"
  "prefixPositions stH = [0, 50, 100, 150]" "contentSize stH = 200" "contentPos stH = 0"
  "slotFirstIndex stH = 0" "boundsMin stH = 0" "boundsMax stH = 100" "\<not> isRefreshing stH"
  "velSamples stH = []"
  unfolding stH_def stP_val
  by (simp_all add: cfgH_def cfg0_def st0_def layout_eval search_eval sar1_def ToInt32_def)

lemma cfgH_fields:
  "useVirtualList cfgH" "useDynamicSize cfgH" "slots cfgH = 2" "totalCount cfgH = 4"
  "spacing cfgH = 0" "getItemHeightFn cfgH = Some (\<lambda>i. 50)" "getItemTypeIndexFn cfgH = None"
  "isVertical cfgH" "buffer cfgH = 0" "viewportSize cfgH = 100" "enablePullRefresh cfgH"
  "pullRefreshMaxOffset cfgH = 150" "pullDampingRate cfgH = 1 / 2" "pixelAlign cfgH"
  "pullRefreshThreshold cfgH = 100" "velocityWindow cfgH = 8 / 100"
  by (simp_all add: cfgH_def cfg0_def isVertical_def)

lemma int_below_4: "0 \<le> (i::int) \<Longrightarrow> i < 4 \<Longrightarrow> i = 0 \<or> i = 1 \<or> i = 2 \<or> i = 3"
  by arith

lemma poolsOk_stH:
  "poolsOk cfgH (\<lambda>ty. if ty = 0 \<or> ty = 1 then Some [] else None) [Some 0, Some 1]
     [Some 0, Some 0] 2"
  by (rule poolsOkI) (auto simp: itemType_def cfgH_fields split: if_splits)


lemma settled_stH:
  assumes "itemSizes st = [50, 50, 50, 50]" "prefixPositions st = [0, 50, 100, 150]"
  shows "sizesSettled cfgH UNIV st"
  unfolding sizesSettled_def
proof (intro ballI impI)
  fix idx :: int assume "0 \<le> idx \<and> idx < totalCount cfgH"
  then have "idx = 0 \<or> idx = 1 \<or> idx = 2 \<or> idx = 3"
    using int_below_4[of idx] by (simp add: cfgH_fields)
  then show "\<exists>sz p. array_get (itemSizes st) idx = Some sz \<and>
                array_get (prefixPositions st) idx = Some p \<and>
                (case getItemHeightFn cfgH of
                   Some h \<Rightarrow> h idx = sz
                 | None \<Rightarrow>
                     (case renderItemFn cfgH of
                        Some f \<Rightarrow>
                          \<forall>n old. \<bar>sz - (if isVertical cfgH then snd (f n idx old)
                                          else fst (f n idx old))\<bar> \<le> 1
                      | None \<Rightarrow> False))"
    by (auto simp: assms array_get_def cfgH_fields)
qed

lemma dynOk_stHPull: "dynOk cfgH UNIV stHPull"
  unfolding dynOk_def using poolsOk_stH settled_stH[of stHPull]
  by (simp add: stHPull_def stH_fields cfgH_fields)

lemma stHPull_facts:
  "isTouching stHPull" "\<not> isRefreshing stHPull" "boundsMin stHPull = 0"
  "boundsMax stHPull = 100" "contentPos stHPull = - 100" "velSamples stHPull = []"
  "length (prefixPositions stHPull) = 4"
  by (simp_all add: stHPull_def stH_fields)






section \<open>Resistance and threshold of the refresh pull\<close>

lemma dynOk_structure:
  assumes "dynOk cfg A a" "slotNodes b = slotNodes a" "slotPrefabIndices b = slotPrefabIndices a"
    "nodePool b = nodePool a" "nextNode b = nextNode a" "sizesSettled cfg A' b"
  shows "dynOk cfg A' b"
  using assms unfolding dynOk_def by (auto split: option.splits)

lemma dynOk_mono: "A \<subseteq> B \<Longrightarrow> dynOk cfg B st \<Longrightarrow> dynOk cfg A st"
  unfolding dynOk_def sizesSettled_def by blast

lemma fixed_bindOrHide_indep:
  "\<not> useDynamicSize cfg \<Longrightarrow> bindOrHide R cfg idx slot st = bindOrHide R' cfg idx slot st"
  by (simp add: bindOrHide_def layoutSingleSlotWith_def)

lemma fixed_updateVisible_returns:
  assumes "\<not> useDynamicSize cfg" "gridCount cfg \<noteq> 0"
    "itemMainSize cfg + spacing cfg \<noteq> 0 \<or> totalCount cfg < int (slots cfg)"
  shows "\<exists>st'. \<forall>fuel. updateVisible (Suc fuel) cfg force st = Inr st'"
proof -
  obtain st' where r: "updateVisible (Suc 0) cfg force st = Inr st'"
    using fixed_updateVisible_total[OF assms] by blast
  have "updateVisible (Suc fuel) cfg force st = updateVisible (Suc 0) cfg force st" for fuel
  proof -
    define R where "R = updateVisible fuel cfg True"
    define R' where "R' = updateVisible 0 cfg True"
    have e: "bindOrHide R cfg = bindOrHide R' cfg"
      by (intro ext) (rule fixed_bindOrHide_indep[OF assms(1)])
    have "reconcileWith R cfg F force st = reconcileWith R' cfg F force st" for F
      unfolding reconcileWith_def layoutSlotsWith_def e ..
    then have "updateVisibleWith R cfg force st = updateVisibleWith R' cfg force st"
      unfolding updateVisibleWith_def by (simp cong: sum.case_cong)
    then show ?thesis
      unfolding R_def R'_def by (simp only: updateVisible.simps)
  qed
  with r show ?thesis by auto
qed

lemma ratioMin_defined:
  "m \<noteq> 0 \<or> 0 < x \<Longrightarrow> ratioMin x m = Some (if m = 0 then 1 else min (x / m) 1)"
  by (auto simp: ratioMin_def)

lemma refreshPull_pulls:
  assumes en: "enablePullRefresh cfg" "\<not> isRefreshing st"
    and top: "if isVertical cfg
         then contentPos st \<le> min (boundsMin st) (boundsMax st) \<and> delta < 0
         else contentPos st \<ge> max (boundsMin st) (boundsMax st) \<and> delta > 0"
  defines "overOffset \<equiv> (if isVertical cfg then min (boundsMin st) (boundsMax st) - contentPos st
                        else contentPos st - max (boundsMin st) (boundsMax st))"
  assumes mx: "pullRefreshMaxOffset cfg \<noteq> 0 \<or> 0 < overOffset"
  defines "fd \<equiv> delta * (1 - (if pullRefreshMaxOffset cfg = 0 then 1
                                  else min (overOffset / pullRefreshMaxOffset cfg) 1)
                               * (1 - pullDampingRate cfg))"
  defines "off \<equiv> min (overOffset + \<bar>fd\<bar>) (pullRefreshMaxOffset cfg)"
  shows "refreshPull cfg delta (contentPos st) delta st =
           Inr (fd, updateRefreshState cfg
                      (if off \<ge> pullRefreshThreshold cfg then R_READY else R_PULLING) off
                      (st\<lparr>pullOffset := off\<rparr>))"
proof -
  have g: "enablePullRefresh cfg \<and> \<not> isRefreshing st \<and>
      (if isVertical cfg then contentPos st \<le> min (boundsMin st) (boundsMax st)
       else contentPos st \<ge> max (boundsMin st) (boundsMax st)) \<and>
      (if isVertical cfg then delta < 0 else delta > 0)"
    using en top by (cases "isVertical cfg") (simp_all only: if_True if_False simp_thms)
  have q: "ratioMin overOffset (pullRefreshMaxOffset cfg) =
      Some (if pullRefreshMaxOffset cfg = 0 then 1
            else min (overOffset / pullRefreshMaxOffset cfg) 1)"
    by (rule ratioMin_defined[OF mx])
  have c: "\<And>b x y. (if b then updateRefreshState cfg R_READY x y
                      else updateRefreshState cfg R_PULLING x y) =
                  updateRefreshState cfg (if b then R_READY else R_PULLING) x y"
    by simp
  show ?thesis
    unfolding refreshPull_def Let_def
    apply (subst if_P[OF g])
    apply (fold overOffset_def)
    apply (subst q)
    apply (simp only: option.case c)
    apply (fold fd_def)
    apply (fold off_def)
    apply (rule refl)
    done
qed

lemma onMove_pulls:
  fixes t :: real
  assumes touching: "isTouching st"
    and en: "enablePullRefresh cfg" "\<not> isRefreshing st"
    and top: "if isVertical cfg
         then contentPos st \<le> min (boundsMin st) (boundsMax st) \<and> delta < 0
         else contentPos st \<ge> max (boundsMin st) (boundsMax st) \<and> delta > 0"
  defines "overOffset \<equiv> (if isVertical cfg then min (boundsMin st) (boundsMax st) - contentPos st
                        else contentPos st - max (boundsMin st) (boundsMax st))"
  assumes mx: "pullRefreshMaxOffset cfg \<noteq> 0 \<or> 0 < overOffset"
  defines "fd \<equiv> delta * (1 - (if pullRefreshMaxOffset cfg = 0 then 1
                                  else min (overOffset / pullRefreshMaxOffset cfg) 1)
                               * (1 - pullDampingRate cfg))"
  defines "off \<equiv> min (overOffset + \<bar>fd\<bar>) (pullRefreshMaxOffset cfg)"
  defines "pos' \<equiv> (if pixelAlign cfg then Math_round (contentPos st + fd) else contentPos st + fd)"
  defines "st4 \<equiv>
      (updateRefreshState cfg (if off \<ge> pullRefreshThreshold cfg then R_READY else R_PULLING) off
         (st\<lparr>pullOffset := off\<rparr>))
        \<lparr>contentPos := pos',
         velSamples := dropWhile (\<lambda>smp. fst smp < t - velocityWindow cfg)
                         (velSamples st @ [(t, fd)])\<rparr>"
  shows "onMove k cfg delta t st =
           (if useVirtualList cfg then updateVisible k cfg False st4 else Inr st4)"
proof -
  let ?rs = "if off \<ge> pullRefreshThreshold cfg then R_READY else R_PULLING"
  define st2 where "st2 = updateRefreshState cfg ?rs off (st\<lparr>pullOffset := off\<rparr>)"
  have r: "refreshPull cfg delta (contentPos st) delta st = Inr (fd, st2)"
    unfolding st2_def fd_def off_def overOffset_def
    by (rule refreshPull_pulls[OF en top mx[unfolded overOffset_def]])
  have dir: "if isVertical cfg then delta < 0 else delta > 0"
    using top by (cases "isVertical cfg") (simp_all only: if_True if_False)
  have l: "loadMorePull cfg delta (contentPos st) fd st2 = Inr (fd, st2)"
    by (rule loadMorePull_skip[OF dir])
  have al: "(if pixelAlign cfg then Math_round (align cfg (contentPos st + fd))
             else align cfg (contentPos st + fd)) = pos'"
    unfolding pos'_def by (simp add: align_def)
  have s4: "st4 = (setContentMainPos cfg (align cfg (contentPos st + fd)) st2)
      \<lparr>velSamples := dropWhile (\<lambda>smp. fst smp < t - velocityWindow cfg)
          (velSamples (setContentMainPos cfg (align cfg (contentPos st + fd)) st2) @ [(t, fd)])\<rparr>"
    unfolding st4_def st2_def setContentMainPos_def al by simp
  show ?thesis
    unfolding onMove_def s4 using touching by (simp add: r l Let_def)
qed

text \<open>
  C6, as amended. A drag move while pull-refresh is enabled, no refresh is in progress,
  the content is at or past the top boundary and the delta pulls further past it
  (\<open>maxOffset\<close> not 0, or the content strictly past the boundary, so that the ratio is a
  number). With \<open>finalDelta = delta * resistance\<close>, where
  \<open>resistance = 1 - min(overOffset / maxOffset, 1) * (1 - dampingRate)\<close> (the minimum is
  1 for \<open>maxOffset = 0\<close>):

  \<^item> the handler does what \<open>_updateVisible(false)\<close> does (nothing, without
    virtualisation) to the state \<open>st4\<close>, in which the content position is
    \<open>pos + finalDelta\<close>, rounded to the nearest integer when pixel alignment is on, the
    pull offset is \<open>min(overOffset + |finalDelta|, maxOffset)\<close>, the refresh state is
    \<open>READY\<close> if the pull offset has reached the threshold and \<open>PULLING\<close> otherwise (the
    callback is called if the state changes), and the sample \<open>(t, finalDelta)\<close> is
    recorded;

  \<^item> a state the handler returns has that position, pull offset, refresh state and those
    samples;

  \<^item> the pull offset is at most \<open>maxOffset\<close>;

  \<^item> the handler returns, without a re-entrant call, for a list that is not virtual, for
    a fixed-size list with \<open>gridCount\<close> not 0 and a stride that is not 0 (or fewer items
    than slots), and for a dynamic-size list of fewer than \<open>2^30\<close> items whose pool fits
    its slots and whose recorded sizes of the items of the window that \<open>_updateVisible\<close>
    computes for \<open>st4\<close> are settled.
\<close>

theorem pull_refresh_step:
  fixes t :: real
  assumes touching: "isTouching st"
    and en: "enablePullRefresh cfg" "\<not> isRefreshing st"
    and top: "if isVertical cfg
         then contentPos st \<le> min (boundsMin st) (boundsMax st) \<and> delta < 0
         else contentPos st \<ge> max (boundsMin st) (boundsMax st) \<and> delta > 0"
  defines "overOffset \<equiv> (if isVertical cfg then min (boundsMin st) (boundsMax st) - contentPos st
                        else contentPos st - max (boundsMin st) (boundsMax st))"
  assumes mx: "pullRefreshMaxOffset cfg \<noteq> 0 \<or> 0 < overOffset"
  defines "fd \<equiv> delta * (1 - (if pullRefreshMaxOffset cfg = 0 then 1
                                  else min (overOffset / pullRefreshMaxOffset cfg) 1)
                               * (1 - pullDampingRate cfg))"
  defines "off \<equiv> min (overOffset + \<bar>fd\<bar>) (pullRefreshMaxOffset cfg)"
  defines "pos' \<equiv> (if pixelAlign cfg then Math_round (contentPos st + fd) else contentPos st + fd)"
  defines "st4 \<equiv>
      (updateRefreshState cfg (if off \<ge> pullRefreshThreshold cfg then R_READY else R_PULLING) off
         (st\<lparr>pullOffset := off\<rparr>))
        \<lparr>contentPos := pos',
         velSamples := dropWhile (\<lambda>smp. fst smp < t - velocityWindow cfg)
                         (velSamples st @ [(t, fd)])\<rparr>"
  shows "onMove fuel cfg delta t st =
           (if useVirtualList cfg then updateVisible fuel cfg False st4 else Inr st4) \<and>
         (\<forall>st'. onMove fuel cfg delta t st = Inr st' \<longrightarrow>
            contentPos st' = pos' \<and> pullOffset st' = off \<and>
            refreshState st' = (if off \<ge> pullRefreshThreshold cfg then R_READY else R_PULLING) \<and>
            velSamples st' = dropWhile (\<lambda>smp. fst smp < t - velocityWindow cfg)
                               (velSamples st @ [(t, fd)])) \<and>
         off \<le> pullRefreshMaxOffset cfg \<and>
         (pullRefreshMaxOffset cfg \<noteq> 0 \<longrightarrow>
            fd = delta * specResistance overOffset (pullRefreshMaxOffset cfg) (pullDampingRate cfg)) \<and>
         (\<not> useVirtualList cfg \<or>
          (\<not> useDynamicSize cfg \<and> gridCount cfg \<noteq> 0 \<and>
           (itemMainSize cfg + spacing cfg \<noteq> 0 \<or> totalCount cfg < int (slots cfg))) \<or>
          (dynOk cfg {} st \<and> length (prefixPositions st) < 2 ^ 30 \<and>
           (\<forall>F. newFirstIndex cfg st4 = Inr F \<longrightarrow> sizesSettled cfg (windowItems cfg F) st))
          \<longrightarrow> (\<exists>st'. \<forall>fuel. onMove (Suc fuel) cfg delta t st = Inr st'))"
proof -
  let ?rs = "if off \<ge> pullRefreshThreshold cfg then R_READY else R_PULLING"
  have mv: "\<And>k. onMove k cfg delta t st =
      (if useVirtualList cfg then updateVisible k cfg False st4 else Inr st4)"
    unfolding st4_def pos'_def off_def fd_def overOffset_def
    by (rule onMove_pulls[OF touching en top mx[unfolded overOffset_def]])
  have f4: "contentPos st4 = pos' \<and> pullOffset st4 = off \<and> refreshState st4 = ?rs \<and>
      velSamples st4 = dropWhile (\<lambda>smp. fst smp < t - velocityWindow cfg)
                               (velSamples st @ [(t, fd)])"
    unfolding st4_def by simp
  have le: "off \<le> pullRefreshMaxOffset cfg" unfolding off_def by (rule min.cobounded2)
  have part2: "\<forall>st'. onMove fuel cfg delta t st = Inr st' \<longrightarrow>
            contentPos st' = pos' \<and> pullOffset st' = off \<and> refreshState st' = ?rs \<and>
            velSamples st' = dropWhile (\<lambda>smp. fst smp < t - velocityWindow cfg)
                               (velSamples st @ [(t, fd)])"
  proof (intro allI impI)
    fix st' assume a: "onMove fuel cfg delta t st = Inr st'"
    have "gesture st' = gesture st4"
    proof (cases "useVirtualList cfg")
      case True
      with a mv have "updateVisible fuel cfg False st4 = Inr st'" by simp
      then show ?thesis by (rule updateVisible_gesture)
    next
      case False
      with a mv show ?thesis by simp
    qed
    then have "contentPos st' = contentPos st4 \<and> pullOffset st' = pullOffset st4 \<and>
        refreshState st' = refreshState st4 \<and> velSamples st' = velSamples st4"
      by (simp add: gesture_def)
    with f4 show "contentPos st' = pos' \<and> pullOffset st' = off \<and> refreshState st' = ?rs \<and>
            velSamples st' = dropWhile (\<lambda>smp. fst smp < t - velocityWindow cfg)
                               (velSamples st @ [(t, fd)])"
      by (simp only: simp_thms)
  qed
  have part4: "pullRefreshMaxOffset cfg \<noteq> 0 \<longrightarrow>
      fd = delta * specResistance overOffset (pullRefreshMaxOffset cfg) (pullDampingRate cfg)"
    unfolding fd_def specResistance_def by simp
  have part5: "\<not> useVirtualList cfg \<or>
          (\<not> useDynamicSize cfg \<and> gridCount cfg \<noteq> 0 \<and>
           (itemMainSize cfg + spacing cfg \<noteq> 0 \<or> totalCount cfg < int (slots cfg))) \<or>
          (dynOk cfg {} st \<and> length (prefixPositions st) < 2 ^ 30 \<and>
           (\<forall>F. newFirstIndex cfg st4 = Inr F \<longrightarrow> sizesSettled cfg (windowItems cfg F) st))
          \<longrightarrow> (\<exists>st'. \<forall>fuel. onMove (Suc fuel) cfg delta t st = Inr st')"
  proof
    assume h: "\<not> useVirtualList cfg \<or>
          (\<not> useDynamicSize cfg \<and> gridCount cfg \<noteq> 0 \<and>
           (itemMainSize cfg + spacing cfg \<noteq> 0 \<or> totalCount cfg < int (slots cfg))) \<or>
          (dynOk cfg {} st \<and> length (prefixPositions st) < 2 ^ 30 \<and>
           (\<forall>F. newFirstIndex cfg st4 = Inr F \<longrightarrow> sizesSettled cfg (windowItems cfg F) st))"
    show "\<exists>st'. \<forall>fuel. onMove (Suc fuel) cfg delta t st = Inr st'"
    proof (cases "useVirtualList cfg")
      case False
      then show ?thesis using mv by simp
    next
      case True
      have "\<exists>st'. \<forall>fuel. updateVisible (Suc fuel) cfg False st4 = Inr st'"
      proof (cases "useDynamicSize cfg")
        case False
        with h True have "gridCount cfg \<noteq> 0"
          "itemMainSize cfg + spacing cfg \<noteq> 0 \<or> totalCount cfg < int (slots cfg)"
          unfolding dynOk_def by auto
        then show ?thesis by (rule fixed_updateVisible_returns[OF False])
      next
        case dyn: True
        with h True have ok: "dynOk cfg {} st" and small: "length (prefixPositions st) < 2 ^ 30"
          and settled: "\<forall>F. newFirstIndex cfg st4 = Inr F \<longrightarrow>
                          sizesSettled cfg (windowItems cfg F) st"
          by auto
        have same: "slotNodes st4 = slotNodes st" "slotPrefabIndices st4 = slotPrefabIndices st"
          "nodePool st4 = nodePool st" "nextNode st4 = nextNode st" "itemSizes st4 = itemSizes st"
          "prefixPositions st4 = prefixPositions st"
          unfolding st4_def updateRefreshState_def by simp_all
        obtain F where F: "newFirstIndex cfg st4 = Inr F"
          using dyn_newFirstIndex[OF dyn, of st4] small same(6) by auto
        have "sizesSettled cfg (windowItems cfg F) st" using settled F by blast
        then have "sizesSettled cfg (windowItems cfg F) st4"
          unfolding sizesSettled_def same(5,6) .
        then have "dynOk cfg (windowItems cfg F) st4"
          by (rule dynOk_structure[OF ok same(1-4)])
        from dyn_updateVisible[OF F this, of False] show ?thesis by blast
      qed
      then show ?thesis using mv True by simp
    qed
  qed
  show ?thesis using mv[of fuel] part2 le part4 part5 by (intro conjI)
qed

theorem pull_refresh_step_witness:
  "specResistance 100 150 (1 / 2) = 2 / 3 \<and>
   (\<exists>st'. (\<forall>fuel. onMove (Suc fuel) cfg0 (- 3) 0 stPull = Inr st') \<and> contentPos st' = - 102 \<and>
      pullOffset st' = 102 \<and> refreshState st' = R_READY \<and> velSamples st' = [(0, - 2)]) \<and>
   (\<exists>st'. (\<forall>fuel. onMove (Suc fuel) cfgH (- 3) 0 stHPull = Inr st') \<and> contentPos st' = - 102 \<and>
      pullOffset st' = 102 \<and> refreshState st' = R_READY \<and> velSamples st' = [(0, - 2)])"
proof -
  have r: "specResistance 100 150 (1 / 2) = 2 / 3"
    by (simp add: specResistance_def)
  have top: "if isVertical cfg0
     then contentPos stPull \<le> min (boundsMin stPull) (boundsMax stPull) \<and> (- 3 :: real) < 0
     else contentPos stPull \<ge> max (boundsMin stPull) (boundsMax stPull) \<and> (- 3 :: real) > 0"
    by (simp add: stPull_facts)
  have mx: "pullRefreshMaxOffset cfg0 \<noteq> 0 \<or>
      0 < (if isVertical cfg0 then min (boundsMin stPull) (boundsMax stPull) - contentPos stPull
           else contentPos stPull - max (boundsMin stPull) (boundsMax stPull))"
    by (simp add: stPull_facts)
  note th = pull_refresh_step[where t = 0 and fuel = 1, OF stPull_facts(1,2,3) top mx]
  from th obtain st' where run: "\<And>fuel. onMove (Suc fuel) cfg0 (- 3) 0 stPull = Inr st'"
    by (simp add: stPull_facts) blast
  from th run[of 0] have "contentPos st' = - 102 \<and> pullOffset st' = 102 \<and>
      refreshState st' = R_READY \<and> velSamples st' = [(0, - 2)]"
    by (simp add: stPull_facts r[unfolded specResistance_def])
  with run have fixed: "\<exists>st'. (\<forall>fuel. onMove (Suc fuel) cfg0 (- 3) 0 stPull = Inr st') \<and>
      contentPos st' = - 102 \<and> pullOffset st' = 102 \<and> refreshState st' = R_READY \<and>
      velSamples st' = [(0, - 2)]"
    by blast
  have topH: "if isVertical cfgH
     then contentPos stHPull \<le> min (boundsMin stHPull) (boundsMax stHPull) \<and> (- 3 :: real) < 0
     else contentPos stHPull \<ge> max (boundsMin stHPull) (boundsMax stHPull) \<and> (- 3 :: real) > 0"
    by (simp add: stHPull_facts cfgH_fields)
  have mxH: "pullRefreshMaxOffset cfgH \<noteq> 0 \<or>
      0 < (if isVertical cfgH
           then min (boundsMin stHPull) (boundsMax stHPull) - contentPos stHPull
           else contentPos stHPull - max (boundsMin stHPull) (boundsMax stHPull))"
    by (simp add: cfgH_fields)
  note thH = pull_refresh_step[where t = 0 and fuel = 1,
      OF stHPull_facts(1) cfgH_fields(11) stHPull_facts(2) topH mxH]
  have "dynOk cfgH {} stHPull" by (rule dynOk_mono[OF _ dynOk_stHPull]) simp
  moreover have "sizesSettled cfgH A stHPull" for A
    using dynOk_stHPull unfolding dynOk_def sizesSettled_def by blast
  ultimately obtain sh where
    runH: "\<And>fuel. onMove (Suc fuel) cfgH (- 3) 0 stHPull = Inr sh"
    using thH by (simp add: stHPull_facts cfgH_fields) blast
  from thH runH[of 0] have "contentPos sh = - 102 \<and> pullOffset sh = 102 \<and>
      refreshState sh = R_READY \<and> velSamples sh = [(0, - 2)]"
    by (simp add: stHPull_facts cfgH_fields r[unfolded specResistance_def])
  with runH have dynamic: "\<exists>st'. (\<forall>fuel. onMove (Suc fuel) cfgH (- 3) 0 stHPull = Inr st') \<and>
      contentPos st' = - 102 \<and> pullOffset st' = 102 \<and> refreshState st' = R_READY \<and>
      velSamples st' = [(0, - 2)]"
    by blast
  show ?thesis using r fixed dynamic by (intro conjI)
qed

text \<open>
  With pixel alignment on (the default), the position does not move by
  \<open>delta * resistance\<close>: 100 past the top (\<open>maxOffset = 150\<close>, \<open>dampingRate = 0.5\<close>,
  resistance \<open>2/3\<close>) a delta of \<open>-4\<close> gives \<open>finalDelta = -8/3\<close>, and the position goes
  from \<open>-100\<close> to \<open>Math.round(-102.67) = -103\<close>, by \<open>-3\<close>.
\<close>

theorem pull_refresh_step_counterexample:
  "min (boundsMin stPull) (boundsMax stPull) - contentPos stPull = 100 \<and>
   - 4 * specResistance 100 (pullRefreshMaxOffset cfg0) (pullDampingRate cfg0) = - 8 / 3 \<and>
   (case onMove 1 cfg0 (- 4) 0 stPull of
      Inr st' \<Rightarrow> contentPos st' - contentPos stPull = - 3
    | Inl e \<Rightarrow> False)"
proof -
  have top: "if isVertical cfg0
     then contentPos stPull \<le> min (boundsMin stPull) (boundsMax stPull) \<and> (- 4 :: real) < 0
     else contentPos stPull \<ge> max (boundsMin stPull) (boundsMax stPull) \<and> (- 4 :: real) > 0"
    by (simp add: stPull_facts)
  have mx: "pullRefreshMaxOffset cfg0 \<noteq> 0 \<or>
      0 < (if isVertical cfg0 then min (boundsMin stPull) (boundsMax stPull) - contentPos stPull
           else contentPos stPull - max (boundsMin stPull) (boundsMax stPull))"
    by (simp add: stPull_facts)
  note mv = onMove_pulls[where t = 0 and k = 1, OF stPull_facts(1,2,3) top mx]
  obtain st' where st': "onMove 1 cfg0 (- 4) 0 stPull = Inr st'"
    using fixed_updateVisible_total[OF stPull_facts(12,13), of 0 False] mv
    by (simp add: stPull_facts) blast
  have rnd: "Math_round (- (308 / 3)) = - 103"
    by (simp add: Math_round_def)
  from st' mv have "updateVisible 1 cfg0 False
      ((updateRefreshState cfg0 R_READY (308 / 3) (stPull\<lparr>pullOffset := 308 / 3\<rparr>))
         \<lparr>contentPos := - 103, velSamples := [(0, - 8 / 3)]\<rparr>) = Inr st'"
    by (simp add: stPull_facts rnd)
  from updateVisible_gesture[OF this] have "contentPos st' = - 103"
    by (simp add: gesture_def)
  then show ?thesis
    using st' by (simp add: stPull_facts specResistance_def)
qed

section \<open>Updating a size twice\<close>







end
